theory Spec2Isabelle
  imports Main "HOL-Library.Word" "HOL-Library.Char_ord" "HOL-Library.List_Lexorder"
begin

section \<open>The pull contract\<close>

text \<open>
  An iterator of \<^verbatim>\<open>iterator.h\<close> is a value with a method
  \<^verbatim>\<open>std::optional<ItemType> next()\<close> that mutates the iterator. Here an iterator is
  its state \<open>'s\<close> together with its \<^verbatim>\<open>next\<close>, a function from the state to the
  optional item and the state after the call. The adapters are templates over the inner
  iterator type and call its \<^verbatim>\<open>next\<close> statically, so each adapter's \<^verbatim>\<open>next\<close> takes
  the inner \<^verbatim>\<open>next\<close> as an argument. A call of the inner \<^verbatim>\<open>next\<close> is taken to
  return; an adapter whose own \<^verbatim>\<open>next\<close> holds an unbounded loop returns an option,
  \<open>None\<close> standing for a loop that never ends.

  \<^verbatim>\<open>size_t\<close> is a 64-bit word.
\<close>

type_synonym size_t = "64 word"

type_synonym ('s, 'a) pull = "'s \<Rightarrow> 'a option \<times> 's"

type_synonym ('s, 'a) pull_loop = "'s \<Rightarrow> ('a option \<times> 's) option"

text \<open>Undefined behaviour of the C++ source that the model makes a value.\<close>

datatype fault = Nullopt_dereference | Out_of_bounds_write

section \<open>The array source\<close>

text \<open>
  \<^verbatim>\<open>Array<T>::ArrayIterator\<close>: the fields \<^verbatim>\<open>cont\<close> (the array, by reference to const)
  and \<^verbatim>\<open>cursor\<close>. The array is the list of its \<^verbatim>\<open>num_elements\<close> elements. The cursor
  is incremented only below \<^verbatim>\<open>num_elements\<close>, so it never wraps, and is a natural number.
\<close>

datatype 'a ArrayIterator = ArrayIterator "'a list" nat

fun ArrayIterator_next :: "('a ArrayIterator, 'a) pull" where
  "ArrayIterator_next (ArrayIterator cont cursor) =
     (if cursor < length cont
      then (Some (cont ! cursor), ArrayIterator cont (cursor + 1))
      else (None, ArrayIterator cont cursor))"

text \<open>\<^verbatim>\<open>Array<T>::iter()\<close>: a fresh iterator with the cursor at 0.\<close>

definition Array_iter :: "'a list \<Rightarrow> 'a ArrayIterator" where
  "Array_iter arr = ArrayIterator arr 0"

section \<open>The adapters\<close>

text \<open>
  Each adapter is a datatype with one constructor whose arguments are the fields of the
  C++ struct, in the order of their declaration there.
\<close>

subsection \<open>StepBy\<close>

text \<open>
  The discard loop \<^verbatim>\<open>for (size_t i = 1U; i != step; ++i) if (!inner.next().has_value()) break;\<close>.
  The counter is a \<^verbatim>\<open>size_t\<close> and wraps; the loop ends when it meets \<^verbatim>\<open>step\<close>.
\<close>

function StepBy_loop :: "('s, 'a) pull \<Rightarrow> size_t \<Rightarrow> size_t \<Rightarrow> 's \<Rightarrow> 's" where
  "StepBy_loop nxt step i inner =
     (if i \<noteq> step
      then (case nxt inner of
              (None, inner') \<Rightarrow> inner'
            | (Some v, inner') \<Rightarrow> StepBy_loop nxt step (i + 1) inner')
      else inner)"
  by pat_completeness auto
termination
  apply (relation "measure (\<lambda>(nxt, step, i, inner). unat (step - i))")
   apply simp
  apply (simp only: in_measure prod.case)
  apply (subst diff_diff_eq [symmetric])
  apply (simp add: unat_minus_one unat_gt_0)
  done

declare StepBy_loop.simps [simp del]

datatype 's StepBy = StepBy 's size_t

fun StepBy_next :: "('s, 'a) pull \<Rightarrow> ('s StepBy, 'a) pull" where
  "StepBy_next nxt (StepBy inner step) =
     (case nxt inner of
        (Some v, inner') \<Rightarrow> (Some v, StepBy (StepBy_loop nxt step 1 inner') step)
      | (None, inner') \<Rightarrow> (None, StepBy inner' step))"

subsection \<open>Map\<close>

datatype ('s, 'a, 'b) Map = Map 's "'a \<Rightarrow> 'b"

fun Map_next :: "('s, 'a) pull \<Rightarrow> (('s, 'a, 'b) Map, 'b) pull" where
  "Map_next nxt (Map inner mapper) =
     (case nxt inner of
        (Some v, inner') \<Rightarrow> (Some (mapper v), Map inner' mapper)
      | (None, inner') \<Rightarrow> (None, Map inner' mapper))"

subsection \<open>Skip\<close>

text \<open>The loop \<^verbatim>\<open>for (size_t i = 0U; i != skip; ++i) inner.next();\<close>.\<close>

function Skip_loop :: "('s, 'a) pull \<Rightarrow> size_t \<Rightarrow> size_t \<Rightarrow> 's \<Rightarrow> 's" where
  "Skip_loop nxt skip i inner =
     (if i \<noteq> skip then Skip_loop nxt skip (i + 1) (snd (nxt inner)) else inner)"
  by pat_completeness auto
termination
  apply (relation "measure (\<lambda>(nxt, skip, i, inner). unat (skip - i))")
   apply simp
  apply (simp only: in_measure prod.case)
  apply (subst diff_diff_eq [symmetric])
  apply (simp add: unat_minus_one unat_gt_0)
  done

declare Skip_loop.simps [simp del]

datatype 's Skip = Skip 's size_t

fun Skip_next :: "('s, 'a) pull \<Rightarrow> ('s Skip, 'a) pull" where
  "Skip_next nxt (Skip inner skip) =
     (if skip \<noteq> 0
      then (case nxt (Skip_loop nxt skip 0 inner) of (v, inner') \<Rightarrow> (v, Skip inner' 0))
      else (case nxt inner of (v, inner') \<Rightarrow> (v, Skip inner' skip)))"

subsection \<open>SkipWhile\<close>

text \<open>
  The loop \<^verbatim>\<open>do { v = inner.next(); } while (v.has_value() && predicate(*v));\<close>,
  which returns the last value pulled and the inner iterator after it.
\<close>

partial_function (option) SkipWhile_loop ::
  "('s, 'a) pull \<Rightarrow> ('a \<Rightarrow> bool) \<Rightarrow> ('s, 'a) pull_loop" where
  "SkipWhile_loop nxt predicate inner =
     (case nxt inner of
        (None, inner') \<Rightarrow> Some (None, inner')
      | (Some v, inner') \<Rightarrow>
          if predicate v then SkipWhile_loop nxt predicate inner'
          else Some (Some v, inner'))"

declare SkipWhile_loop.simps [code]

datatype ('s, 'a) SkipWhile = SkipWhile 's "'a \<Rightarrow> bool" bool

fun SkipWhile_next :: "('s, 'a) pull \<Rightarrow> (('s, 'a) SkipWhile, 'a) pull_loop" where
  "SkipWhile_next nxt (SkipWhile inner predicate skipped) =
     (if skipped
      then (case nxt inner of (v, inner') \<Rightarrow> Some (v, SkipWhile inner' predicate skipped))
      else (case SkipWhile_loop nxt predicate inner of
              None \<Rightarrow> None
            | Some (v, inner') \<Rightarrow> Some (v, SkipWhile inner' predicate True)))"

subsection \<open>Enumerate\<close>

datatype 's Enumerate = Enumerate 's size_t

fun Enumerate_next :: "('s, 'a) pull \<Rightarrow> ('s Enumerate, size_t \<times> 'a) pull" where
  "Enumerate_next nxt (Enumerate inner index) =
     (case nxt inner of
        (Some v, inner') \<Rightarrow> (Some (index + 1 - 1, v), Enumerate inner' (index + 1))
      | (None, inner') \<Rightarrow> (None, Enumerate inner' index))"

subsection \<open>Filter\<close>

text \<open>The loop \<^verbatim>\<open>do { v = inner.next(); } while (v.has_value() && !predicate(*v));\<close>.\<close>

partial_function (option) Filter_loop ::
  "('s, 'a) pull \<Rightarrow> ('a \<Rightarrow> bool) \<Rightarrow> ('s, 'a) pull_loop" where
  "Filter_loop nxt predicate inner =
     (case nxt inner of
        (None, inner') \<Rightarrow> Some (None, inner')
      | (Some v, inner') \<Rightarrow>
          if \<not> predicate v then Filter_loop nxt predicate inner'
          else Some (Some v, inner'))"

declare Filter_loop.simps [code]

datatype ('s, 'a) Filter = Filter 's "'a \<Rightarrow> bool"

fun Filter_next :: "('s, 'a) pull \<Rightarrow> (('s, 'a) Filter, 'a) pull_loop" where
  "Filter_next nxt (Filter inner predicate) =
     (case Filter_loop nxt predicate inner of
        None \<Rightarrow> None
      | Some (v, inner') \<Rightarrow> Some (v, Filter inner' predicate))"

subsection \<open>Chain\<close>

datatype ('s, 't) Chain = Chain 's 't

fun Chain_next :: "('s, 'a) pull \<Rightarrow> ('t, 'a) pull \<Rightarrow> (('s, 't) Chain, 'a) pull" where
  "Chain_next nxt1 nxt2 (Chain first second) =
     (case nxt1 first of
        (Some v, first') \<Rightarrow> (Some v, Chain first' second)
      | (None, first') \<Rightarrow>
          (case nxt2 second of (v, second') \<Rightarrow> (v, Chain first' second')))"

subsection \<open>Zip\<close>

datatype ('s, 't) Zip = Zip 's 't

fun Zip_next :: "('s, 'a) pull \<Rightarrow> ('t, 'b) pull \<Rightarrow> (('s, 't) Zip, 'a \<times> 'b) pull" where
  "Zip_next nxt1 nxt2 (Zip first second) =
     (case nxt1 first of
        (Some first_value, first') \<Rightarrow>
          (case nxt2 second of
             (Some second_value, second') \<Rightarrow>
               (Some (first_value, second_value), Zip first' second')
           | (None, second') \<Rightarrow> (None, Zip first' second'))
      | (None, first') \<Rightarrow> (None, Zip first' second))"

subsection \<open>Take\<close>

datatype 's Take = Take 's size_t

fun Take_next :: "('s, 'a) pull \<Rightarrow> ('s Take, 'a) pull" where
  "Take_next nxt (Take inner num) =
     (if num \<noteq> 0
      then (case nxt inner of (v, inner') \<Rightarrow> (v, Take inner' (num - 1)))
      else (None, Take inner num))"

subsection \<open>TakeWhile\<close>

datatype ('s, 'a) TakeWhile = TakeWhile 's "'a \<Rightarrow> bool" bool

fun TakeWhile_next :: "('s, 'a) pull \<Rightarrow> (('s, 'a) TakeWhile, 'a) pull" where
  "TakeWhile_next nxt (TakeWhile inner predicate stopped_taking) =
     (if \<not> stopped_taking
      then (case nxt inner of
              (Some v, inner') \<Rightarrow>
                if predicate v then (Some v, TakeWhile inner' predicate stopped_taking)
                else (None, TakeWhile inner' predicate True)
            | (None, inner') \<Rightarrow> (None, TakeWhile inner' predicate True))
      else (None, TakeWhile inner predicate stopped_taking))"

subsection \<open>Cycle\<close>

datatype 's Cycle = Cycle 's 's

fun Cycle_next :: "('s, 'a) pull \<Rightarrow> ('s Cycle, 'a) pull" where
  "Cycle_next nxt (Cycle original inner) =
     (case nxt inner of
        (Some v, inner') \<Rightarrow> (Some v, Cycle original inner')
      | (None, inner') \<Rightarrow>
          (case nxt original of (v, inner'') \<Rightarrow> (v, Cycle original inner'')))"

subsection \<open>Interleave\<close>

datatype ('s, 't) Interleave = Interleave 's 't bool

fun Interleave_next ::
  "('s, 'a) pull \<Rightarrow> ('t, 'a) pull \<Rightarrow> (('s, 't) Interleave, 'a) pull" where
  "Interleave_next nxt1 nxt2 (Interleave first second yield_first) =
     (if yield_first
      then (case nxt1 first of
              (Some v, first') \<Rightarrow> (Some v, Interleave first' second (\<not> yield_first))
            | (None, first') \<Rightarrow>
                (case nxt2 second of
                   (v, second') \<Rightarrow> (v, Interleave first' second' (\<not> yield_first))))
      else (case nxt2 second of
              (Some v, second') \<Rightarrow> (Some v, Interleave first second' (\<not> yield_first))
            | (None, second') \<Rightarrow>
                (case nxt1 first of
                   (v, first') \<Rightarrow> (v, Interleave first' second' (\<not> yield_first)))))"

subsection \<open>InterleaveShortest\<close>

datatype ('s, 't) InterleaveShortest = InterleaveShortest 's 't bool

fun InterleaveShortest_next ::
  "('s, 'a) pull \<Rightarrow> ('t, 'a) pull \<Rightarrow> (('s, 't) InterleaveShortest, 'a) pull" where
  "InterleaveShortest_next nxt1 nxt2 (InterleaveShortest first second yield_first) =
     (if yield_first
      then (case nxt1 first of
              (Some v, first') \<Rightarrow>
                (Some v, InterleaveShortest first' second (\<not> yield_first))
            | (None, first') \<Rightarrow> (None, InterleaveShortest first' second yield_first))
      else (case nxt2 second of
              (Some v, second') \<Rightarrow>
                (Some v, InterleaveShortest first second' (\<not> yield_first))
            | (None, second') \<Rightarrow> (None, InterleaveShortest first second' yield_first)))"

subsection \<open>Unique and UniqueBy\<close>

text \<open>
  The loop \<^verbatim>\<open>v = inner.next(); while (v.has_value() && set.find(*v) != set.end()) v = inner.next();\<close>
  of Unique, and the same loop on \<^verbatim>\<open>func(*v)\<close> of UniqueBy. The \<^verbatim>\<open>std::unordered_set\<close>
  is a set, \<open>seen\<close> here.
\<close>

partial_function (option) Unique_loop ::
  "('s, 'a) pull \<Rightarrow> 'a set \<Rightarrow> ('s, 'a) pull_loop" where
  "Unique_loop nxt seen inner =
     (case nxt inner of
        (None, inner') \<Rightarrow> Some (None, inner')
      | (Some v, inner') \<Rightarrow>
          if v \<in> seen then Unique_loop nxt seen inner'
          else Some (Some v, inner'))"

declare Unique_loop.simps [code]

partial_function (option) UniqueBy_loop ::
  "('s, 'a) pull \<Rightarrow> ('a \<Rightarrow> 'k) \<Rightarrow> 'k set \<Rightarrow> ('s, 'a) pull_loop" where
  "UniqueBy_loop nxt func seen inner =
     (case nxt inner of
        (None, inner') \<Rightarrow> Some (None, inner')
      | (Some v, inner') \<Rightarrow>
          if func v \<in> seen then UniqueBy_loop nxt func seen inner'
          else Some (Some v, inner'))"

declare UniqueBy_loop.simps [code]

datatype ('s, 'a) Unique = Unique 's "'a set"

fun Unique_next :: "('s, 'a) pull \<Rightarrow> (('s, 'a) Unique, 'a) pull_loop" where
  "Unique_next nxt (Unique inner seen) =
     (case Unique_loop nxt seen inner of
        None \<Rightarrow> None
      | Some (Some v, inner') \<Rightarrow> Some (Some v, Unique inner' (insert v seen))
      | Some (None, inner') \<Rightarrow> Some (None, Unique inner' seen))"

datatype ('s, 'a, 'k) UniqueBy = UniqueBy 's "'k set" "'a \<Rightarrow> 'k"

fun UniqueBy_next :: "('s, 'a) pull \<Rightarrow> (('s, 'a, 'k) UniqueBy, 'a) pull_loop" where
  "UniqueBy_next nxt (UniqueBy inner seen func) =
     (case UniqueBy_loop nxt func seen inner of
        None \<Rightarrow> None
      | Some (Some v, inner') \<Rightarrow> Some (Some v, UniqueBy inner' (insert (func v) seen) func)
      | Some (None, inner') \<Rightarrow> Some (None, UniqueBy inner' seen func))"

section \<open>The adapter constructors of \<^verbatim>\<open>Iterator\<close>\<close>

text \<open>
  The methods of the base class \<^verbatim>\<open>Iterator\<close> that build an adapter copy the receiver
  into the adapter and give the other fields the initial values of the C++ constructors.
\<close>

definition Iterator_step_by :: "'s \<Rightarrow> size_t \<Rightarrow> 's StepBy" where
  "Iterator_step_by it step = StepBy it step"

definition Iterator_enumerate :: "'s \<Rightarrow> 's Enumerate" where
  "Iterator_enumerate it = Enumerate it 0"

definition Iterator_skip_while :: "'s \<Rightarrow> ('a \<Rightarrow> bool) \<Rightarrow> ('s, 'a) SkipWhile" where
  "Iterator_skip_while it p = SkipWhile it p False"

definition Iterator_take :: "'s \<Rightarrow> size_t \<Rightarrow> 's Take" where
  "Iterator_take it num = Take it num"

definition Iterator_cycle :: "'s \<Rightarrow> 's Cycle" where
  "Iterator_cycle it = Cycle it it"

definition Iterator_interleave_shortest :: "'s \<Rightarrow> 't \<Rightarrow> ('s, 't) InterleaveShortest" where
  "Iterator_interleave_shortest it other = InterleaveShortest it other True"

definition Iterator_clone :: "'s \<Rightarrow> 's" where
  "Iterator_clone it = it"

section \<open>Terminal operations\<close>

text \<open>
  The terminal operations run \<^verbatim>\<open>for (UnwrapedItemType v : *iter)\<close>. The range-for calls
  \<^verbatim>\<open>begin()\<close>, which pulls once from the receiver and returns a copy of it holding the
  pulled value, and then pulls from that copy until a pull returns \<^verbatim>\<open>std::nullopt\<close>.
  The iterators hold their state by value, so the values pulled are those of successive
  calls of \<^verbatim>\<open>next\<close> from the receiver's state. The loops are unbounded: the result is
  an option, \<open>None\<close> for a loop that never ends.
\<close>

partial_function (option) Iterator_all ::
  "('s, 'a) pull \<Rightarrow> ('a \<Rightarrow> bool) \<Rightarrow> 's \<Rightarrow> bool option" where
  "Iterator_all nxt p s =
     (case nxt s of
        (None, s') \<Rightarrow> Some True
      | (Some v, s') \<Rightarrow> if \<not> p v then Some False else Iterator_all nxt p s')"

declare Iterator_all.simps [code]

partial_function (option) Iterator_any ::
  "('s, 'a) pull \<Rightarrow> ('a \<Rightarrow> bool) \<Rightarrow> 's \<Rightarrow> bool option" where
  "Iterator_any nxt p s =
     (case nxt s of
        (None, s') \<Rightarrow> Some False
      | (Some v, s') \<Rightarrow> if p v then Some True else Iterator_any nxt p s')"

declare Iterator_any.simps [code]

partial_function (option) Iterator_none ::
  "('s, 'a) pull \<Rightarrow> ('a \<Rightarrow> bool) \<Rightarrow> 's \<Rightarrow> bool option" where
  "Iterator_none nxt p s =
     (case nxt s of
        (None, s') \<Rightarrow> Some True
      | (Some v, s') \<Rightarrow> if p v then Some False else Iterator_none nxt p s')"

declare Iterator_none.simps [code]

partial_function (option) Iterator_find ::
  "('s, 'a) pull \<Rightarrow> ('a \<Rightarrow> bool) \<Rightarrow> 's \<Rightarrow> 'a option option" where
  "Iterator_find nxt p s =
     (case nxt s of
        (None, s') \<Rightarrow> Some None
      | (Some v, s') \<Rightarrow> if p v then Some (Some v) else Iterator_find nxt p s')"

declare Iterator_find.simps [code]

text \<open>
  \<^verbatim>\<open>max()\<close> pulls once into \<^verbatim>\<open>max\<close> and then compares every further item \<^verbatim>\<open>v\<close>
  with \<^verbatim>\<open>*max\<close> by the item type's \<^verbatim>\<open>operator>\<close>, the argument \<open>gt\<close> here.
  \<^verbatim>\<open>*max\<close> on an empty optional is undefined behaviour. \<^verbatim>\<open>min()\<close> is the same with
  \<^verbatim>\<open>operator<\<close>, the argument \<open>lt\<close>.
\<close>

partial_function (option) max_loop ::
  "('s, 'a) pull \<Rightarrow> ('a \<Rightarrow> 'a \<Rightarrow> bool) \<Rightarrow> 'a option \<Rightarrow> 's \<Rightarrow> (fault + 'a option) option" where
  "max_loop nxt gt mx s =
     (case nxt s of
        (None, s') \<Rightarrow> Some (Inr mx)
      | (Some v, s') \<Rightarrow>
          (case mx of
             None \<Rightarrow> Some (Inl Nullopt_dereference)
           | Some m \<Rightarrow> if gt v m then max_loop nxt gt (Some v) s' else max_loop nxt gt mx s'))"

declare max_loop.simps [code]

definition Iterator_max ::
  "('s, 'a) pull \<Rightarrow> ('a \<Rightarrow> 'a \<Rightarrow> bool) \<Rightarrow> 's \<Rightarrow> (fault + 'a option) option" where
  "Iterator_max nxt gt s = (case nxt s of (mx, s') \<Rightarrow> max_loop nxt gt mx s')"

partial_function (option) min_loop ::
  "('s, 'a) pull \<Rightarrow> ('a \<Rightarrow> 'a \<Rightarrow> bool) \<Rightarrow> 'a option \<Rightarrow> 's \<Rightarrow> (fault + 'a option) option" where
  "min_loop nxt lt mn s =
     (case nxt s of
        (None, s') \<Rightarrow> Some (Inr mn)
      | (Some v, s') \<Rightarrow>
          (case mn of
             None \<Rightarrow> Some (Inl Nullopt_dereference)
           | Some m \<Rightarrow> if lt v m then min_loop nxt lt (Some v) s' else min_loop nxt lt mn s'))"

declare min_loop.simps [code]

definition Iterator_min ::
  "('s, 'a) pull \<Rightarrow> ('a \<Rightarrow> 'a \<Rightarrow> bool) \<Rightarrow> 's \<Rightarrow> (fault + 'a option) option" where
  "Iterator_min nxt lt s = (case nxt s of (mn, s') \<Rightarrow> min_loop nxt lt mn s')"

partial_function (option) count_loop ::
  "('s, 'a) pull \<Rightarrow> size_t \<Rightarrow> 's \<Rightarrow> size_t option" where
  "count_loop nxt count s =
     (case nxt s of
        (None, s') \<Rightarrow> Some count
      | (Some v, s') \<Rightarrow> count_loop nxt (count + 1) s')"

declare count_loop.simps [code]

definition Iterator_count :: "('s, 'a) pull \<Rightarrow> 's \<Rightarrow> size_t option" where
  "Iterator_count nxt s = count_loop nxt 0 s"

section \<open>Materialization\<close>

text \<open>
  \<^verbatim>\<open>Array<T>(size)\<close> allocates \<^verbatim>\<open>new T[size]\<close>; the argument is \<open>sz\<close> here and
  \<open>dflt\<close> is the value of a fresh element. The array is the list of its elements.
  \<^verbatim>\<open>arr[index] = value\<close> outside the allocation is undefined behaviour.
\<close>

definition Array_new :: "'a \<Rightarrow> size_t \<Rightarrow> 'a list" where
  "Array_new dflt sz = replicate (unat sz) dflt"

text \<open>
  The \<^verbatim>\<open>foreach(it, iter.enumerate())\<close> loop of \<^verbatim>\<open>Array<T>::from_iterator\<close>: the macro
  pulls from the Enumerate adapter until a pull is empty and runs
  \<^verbatim>\<open>arr[index] = std::move(value)\<close> on each pair.
\<close>

partial_function (option) from_iterator_loop ::
  "('s, 'a) pull \<Rightarrow> 's Enumerate \<Rightarrow> 'a list \<Rightarrow> (fault + 'a list) option" where
  "from_iterator_loop nxt it arr =
     (case Enumerate_next nxt it of
        (None, it') \<Rightarrow> Some (Inr arr)
      | (Some (index, val), it') \<Rightarrow>
          if unat index < length arr
          then from_iterator_loop nxt it' (arr[unat index := val])
          else Some (Inl Out_of_bounds_write))"

declare from_iterator_loop.simps [code]

definition Array_from_iterator ::
  "('s, 'a) pull \<Rightarrow> 'a \<Rightarrow> 's \<Rightarrow> (fault + 'a list) option" where
  "Array_from_iterator nxt dflt iter =
     (case Iterator_count nxt (Iterator_clone iter) of
        None \<Rightarrow> None
      | Some count \<Rightarrow>
          from_iterator_loop nxt (Iterator_enumerate iter) (Array_new dflt count))"

definition Iterator_collect ::
  "('s, 'a) pull \<Rightarrow> 'a \<Rightarrow> 's \<Rightarrow> (fault + 'a list) option" where
  "Iterator_collect nxt dflt it = Array_from_iterator nxt dflt it"

section \<open>Observing an iterator\<close>

text \<open>
  \<open>pulls nxt n s\<close> calls \<^verbatim>\<open>next\<close> \<open>n\<close> times from the state \<open>s\<close>: the results of
  the calls in order and the state after the last one.
\<close>

fun pulls :: "('s, 'a) pull \<Rightarrow> nat \<Rightarrow> 's \<Rightarrow> 'a option list \<times> 's" where
  "pulls nxt 0 s = ([], s)"
| "pulls nxt (Suc n) s =
     (case nxt s of (v, s') \<Rightarrow> (case pulls nxt n s' of (vs, s'') \<Rightarrow> (v # vs, s'')))"

text \<open>
  \<open>produces nxt s xs\<close>: from the state \<open>s\<close> the iterator yields the items \<open>xs\<close>, in
  this order, and then signals exhaustion. This is a finite iterator with remaining
  items \<open>xs\<close>.
\<close>

fun produces :: "('s, 'a) pull \<Rightarrow> 's \<Rightarrow> 'a list \<Rightarrow> bool" where
  "produces nxt s [] = (fst (nxt s) = None)"
| "produces nxt s (x # xs) = (fst (nxt s) = Some x \<and> produces nxt (snd (nxt s)) xs)"

text \<open>
  A single-pass iterator: a call of \<^verbatim>\<open>next\<close> that follows one that signalled
  exhaustion signals exhaustion too, in every state. For an adapter with an unbounded
  loop (\<open>single_pass_loop\<close>) the call that follows returns, and signals exhaustion.
\<close>

definition single_pass :: "('s, 'a) pull \<Rightarrow> bool" where
  "single_pass nxt = (\<forall>s. fst (nxt s) = None \<longrightarrow> fst (nxt (snd (nxt s))) = None)"

definition single_pass_loop :: "('s, 'a) pull_loop \<Rightarrow> bool" where
  "single_pass_loop nxt =
     (\<forall>s s'. nxt s = Some (None, s') \<longrightarrow> (\<exists>s''. nxt s' = Some (None, s'')))"

text \<open>
  \<open>produces_loop\<close> is \<open>produces\<close> for an adapter whose \<^verbatim>\<open>next\<close> holds an unbounded
  loop: every call made returns, the items are \<open>xs\<close> and the call after them signals
  exhaustion.
\<close>

fun produces_loop :: "('s, 'a) pull_loop \<Rightarrow> 's \<Rightarrow> 'a list \<Rightarrow> bool" where
  "produces_loop nxt s [] =
     (case nxt s of Some (None, s') \<Rightarrow> True | _ \<Rightarrow> False)"
| "produces_loop nxt s (x # xs) =
     (case nxt s of Some (Some v, s') \<Rightarrow> v = x \<and> produces_loop nxt s' xs | _ \<Rightarrow> False)"

text \<open>
  The comparison of \<^verbatim>\<open>max()\<close> and \<^verbatim>\<open>min()\<close> is the item type's \<^verbatim>\<open>operator>\<close> or
  \<^verbatim>\<open>operator<\<close>. It is taken to be a strict weak order: irreflexive, transitive, and
  with a transitive "neither is better" (a tie). \<open>first_best better xs i\<close>: the item at
  position \<open>i\<close> of \<open>xs\<close> is the first-seen best one: no item is better and it is
  better than every item before it.
\<close>

definition strict_weak_order :: "('a \<Rightarrow> 'a \<Rightarrow> bool) \<Rightarrow> bool" where
  "strict_weak_order better =
     ((\<forall>a. \<not> better a a) \<and>
      (\<forall>a b c. better a b \<and> better b c \<longrightarrow> better a c) \<and>
      (\<forall>a b c. \<not> better a b \<and> \<not> better b c \<longrightarrow> \<not> better a c))"

definition first_best :: "('a \<Rightarrow> 'a \<Rightarrow> bool) \<Rightarrow> 'a list \<Rightarrow> nat \<Rightarrow> bool" where
  "first_best better xs i =
     (i < length xs \<and>
      (\<forall>j<length xs. \<not> better (xs ! j) (xs ! i)) \<and>
      (\<forall>j<i. better (xs ! i) (xs ! j)))"

section \<open>Basic facts\<close>

lemma ArrayIterator_produces:
  "produces ArrayIterator_next (ArrayIterator xs c) (drop c xs)"
proof (induction "length xs - c" arbitrary: c)
  case 0
  then show ?case by simp
next
  case (Suc n)
  then have lt: "c < length xs" by simp
  from Suc have "n = length xs - Suc c" by simp
  from Suc.hyps(1) [OF this]
  have "produces ArrayIterator_next (ArrayIterator xs (Suc c)) (drop (Suc c) xs)" .
  moreover have "drop c xs = xs ! c # drop (Suc c) xs"
    using lt by (simp add: Cons_nth_drop_Suc)
  ultimately show ?case using lt by simp
qed

lemma Array_iter_produces: "produces ArrayIterator_next (Array_iter xs) xs"
  using ArrayIterator_produces [of xs 0] by (simp add: Array_iter_def)

lemma ArrayIterator_single_pass: "single_pass ArrayIterator_next"
  unfolding single_pass_def
proof (intro allI impI)
  fix s :: "'a ArrayIterator"
  assume "fst (ArrayIterator_next s) = None"
  then show "fst (ArrayIterator_next (snd (ArrayIterator_next s))) = None"
    by (cases s) (simp split: if_splits)
qed

lemma count_loop_produces:
  "produces nxt s xs \<Longrightarrow> count_loop nxt c s = Some (c + of_nat (length xs))"
proof (induction xs arbitrary: s c)
  case Nil
  then show ?case by (subst count_loop.simps) (simp add: split_beta)
next
  case (Cons x xs)
  from Cons.prems have a: "fst (nxt s) = Some x" and b: "produces nxt (snd (nxt s)) xs"
    by simp_all
  have "count_loop nxt c s = count_loop nxt (c + 1) (snd (nxt s))"
    using a by (subst count_loop.simps) (simp add: split_beta)
  also have "\<dots> = Some (c + 1 + of_nat (length xs))" by (rule Cons.IH [OF b])
  finally show ?case by (simp add: add.assoc)
qed

lemma Iterator_count_produces:
  "produces nxt s xs \<Longrightarrow> Iterator_count nxt s = Some (of_nat (length xs))"
  by (simp add: Iterator_count_def count_loop_produces)

section \<open>Take\<close>

lemma pulls_Take_zero:
  "pulls (Take_next nxt) k (Take inner 0) = (replicate k None, Take inner 0)"
  by (induction k) simp_all

lemma Take_pulls:
  "pulls (Take_next nxt) k (Take inner num) =
     (fst (pulls nxt (min k (unat num)) inner) @ replicate (k - unat num) None,
      Take (snd (pulls nxt (min k (unat num)) inner)) (num - of_nat (min k (unat num))))"
proof (induction k arbitrary: inner num)
  case 0
  then show ?case by simp
next
  case (Suc k)
  show ?case
  proof (cases "num = 0")
    case True
    then show ?thesis by (simp add: pulls_Take_zero)
  next
    case False
    then have u: "unat num = Suc (unat (num - 1))"
      by (metis Suc_pred' unat_gt_0 unat_minus_one)
    obtain v inner' where n: "nxt inner = (v, inner')" by (cases "nxt inner")
    have m: "min (Suc k) (unat num) = Suc (min k (unat (num - 1)))"
      using u by simp
    show ?thesis
      using False n Suc.IH [of inner' "num - 1"] u
      by (simp add: m split: prod.splits)
  qed
qed

text \<open>
  Claim C2, as the code has it. \<^verbatim>\<open>Take::next\<close> decrements \<^verbatim>\<open>num\<close> on every call
  made while \<^verbatim>\<open>num\<close> is not zero, before it pulls and whether or not the pull yields an
  item. In \<open>k\<close> calls on \<open>Take(inner, num)\<close> the inner iterator is pulled
  \<open>min k num\<close> times: the first \<open>min k num\<close> results are those of the inner iterator,
  every later result is exhaustion, the inner iterator is left in the state after
  \<open>min k num\<close> pulls and \<^verbatim>\<open>num\<close> has gone down by \<open>min k num\<close>. With \<^verbatim>\<open>num\<close> at
  zero every call returns exhaustion and leaves the inner iterator as it is.
\<close>

theorem Take_counts_every_call:
  "pulls (Take_next nxt) k (Take inner num) =
     (fst (pulls nxt (min k (unat num)) inner) @ replicate (k - unat num) None,
      Take (snd (pulls nxt (min k (unat num)) inner)) (num - of_nat (min k (unat num))))"
  by (rule Take_pulls)

text \<open>
  Claim C2 as stated fails: on an array iterator that is exhausted the pull yields no
  item, and \<^verbatim>\<open>num\<close> still goes from 2 to 1.
\<close>

theorem Take_decrement_counterexample:
  "fst (ArrayIterator_next (Array_iter ([]::nat list))) = None \<and>
   Take_next ArrayIterator_next (Take (Array_iter ([]::nat list)) 2) =
     (None, Take (Array_iter []) 1)"
  by (simp add: Array_iter_def)

section \<open>Zip\<close>

lemma single_passD:
  "single_pass nxt \<Longrightarrow> fst (nxt s) = None \<Longrightarrow> fst (nxt (snd (nxt s))) = None"
  by (simp add: single_pass_def)

lemma Zip_second_exhausted_pulls:
  assumes sp: "single_pass nxt2"
  shows "fst (nxt2 second) = None \<Longrightarrow>
    \<exists>second'. pulls (Zip_next nxt1 nxt2) k (Zip first second) =
       (replicate k None, Zip (snd (pulls nxt1 k first)) second') \<and> fst (nxt2 second') = None"
proof (induction k arbitrary: first second)
  case 0
  then show ?case by simp
next
  case (Suc k)
  obtain v first' where n1: "nxt1 first = (v, first')" by (cases "nxt1 first")
  obtain second' where n2: "nxt2 second = (None, second')"
    using Suc.prems by (cases "nxt2 second") simp
  have ex': "fst (nxt2 second') = None"
    using single_passD [OF sp Suc.prems] n2 by simp
  show ?case
  proof (cases v)
    case None
    from Suc.IH [OF Suc.prems, of first'] obtain s2 where
      "pulls (Zip_next nxt1 nxt2) k (Zip first' second) =
         (replicate k None, Zip (snd (pulls nxt1 k first')) s2)" "fst (nxt2 s2) = None"
      by blast
    then show ?thesis using None n1 by (simp add: split_beta)
  next
    case (Some a)
    from Suc.IH [OF ex', of first'] obtain s2 where
      "pulls (Zip_next nxt1 nxt2) k (Zip first' second') =
         (replicate k None, Zip (snd (pulls nxt1 k first')) s2)" "fst (nxt2 s2) = None"
      by blast
    then show ?thesis using Some n1 n2 by (simp add: split_beta)
  qed
qed

text \<open>
  Claim C10. Every call of \<^verbatim>\<open>Zip::next\<close> pulls once from the first iterator, before
  anything else. When the first iterator is exhausted the second is not pulled and keeps
  its state. When the first yields an item and the second is exhausted the call returns
  exhaustion and the item pulled from the first is dropped. So on a Zip whose second
  iterator is exhausted (and single-pass) each of \<open>k\<close> calls returns exhaustion and
  the first iterator ends in the state after \<open>k\<close> pulls.
\<close>

theorem Zip_pulls_first_then_second:
  "(\<exists>r second'. Zip_next nxt1 nxt2 (Zip first second) = (r, Zip (snd (nxt1 first)) second')) \<and>
   (fst (nxt1 first) = None \<longrightarrow>
      Zip_next nxt1 nxt2 (Zip first second) = (None, Zip (snd (nxt1 first)) second)) \<and>
   (fst (nxt1 first) \<noteq> None \<and> fst (nxt2 second) = None \<longrightarrow>
      Zip_next nxt1 nxt2 (Zip first second) =
        (None, Zip (snd (nxt1 first)) (snd (nxt2 second)))) \<and>
   (single_pass nxt2 \<and> fst (nxt2 second) = None \<longrightarrow>
      (\<exists>second'. pulls (Zip_next nxt1 nxt2) k (Zip first second) =
         (replicate k None, Zip (snd (pulls nxt1 k first)) second')))"
proof (intro conjI impI)
  show "\<exists>r second'. Zip_next nxt1 nxt2 (Zip first second) = (r, Zip (snd (nxt1 first)) second')"
    by (cases "nxt1 first"; cases "nxt2 second") (auto split: option.splits)
next
  assume "fst (nxt1 first) = None"
  then show "Zip_next nxt1 nxt2 (Zip first second) = (None, Zip (snd (nxt1 first)) second)"
    by (cases "nxt1 first") simp
next
  assume "fst (nxt1 first) \<noteq> None \<and> fst (nxt2 second) = None"
  then show "Zip_next nxt1 nxt2 (Zip first second) =
        (None, Zip (snd (nxt1 first)) (snd (nxt2 second)))"
    by (cases "nxt1 first"; cases "nxt2 second") auto
next
  assume "single_pass nxt2 \<and> fst (nxt2 second) = None"
  then show "\<exists>second'. pulls (Zip_next nxt1 nxt2) k (Zip first second) =
         (replicate k None, Zip (snd (pulls nxt1 k first)) second')"
    using Zip_second_exhausted_pulls [of nxt2 second nxt1 k first] by blast
qed

theorem Zip_pulls_first_then_second_witness:
  "Zip_next ArrayIterator_next ArrayIterator_next
      (Zip (ArrayIterator [1::nat, 2] 2) (Array_iter [7::nat, 8])) =
      (None, Zip (ArrayIterator [1, 2] 2) (Array_iter [7, 8])) \<and>
   Zip_next ArrayIterator_next ArrayIterator_next
      (Zip (Array_iter [1::nat, 2]) (Array_iter ([]::nat list))) =
      (None, Zip (ArrayIterator [1, 2] 1) (Array_iter [])) \<and>
   single_pass (ArrayIterator_next :: (nat ArrayIterator, nat) pull) \<and>
   fst (ArrayIterator_next (Array_iter ([]::nat list))) = None \<and>
   (\<exists>second'. pulls (Zip_next ArrayIterator_next ArrayIterator_next) 2
      (Zip (Array_iter [1::nat, 2, 3]) (Array_iter ([]::nat list))) =
      ([None, None], Zip (ArrayIterator [1, 2, 3] 2) second'))"
proof -
  have sp: "single_pass (ArrayIterator_next :: (nat ArrayIterator, nat) pull)"
    by (rule ArrayIterator_single_pass)
  have e: "fst (ArrayIterator_next (Array_iter ([]::nat list))) = None"
    by (simp add: Array_iter_def)
  have a: "fst (ArrayIterator_next (ArrayIterator [1::nat, 2] 2)) = None" by simp
  have b: "fst (ArrayIterator_next (Array_iter [1::nat, 2])) \<noteq> None"
    by (simp add: Array_iter_def)
  note t1 = Zip_pulls_first_then_second
    [of ArrayIterator_next ArrayIterator_next "ArrayIterator [1::nat, 2] 2"
        "Array_iter [7::nat, 8]" 0]
  note t2 = Zip_pulls_first_then_second
    [of ArrayIterator_next ArrayIterator_next "Array_iter [1::nat, 2]"
        "Array_iter ([]::nat list)" 0]
  note t3 = Zip_pulls_first_then_second
    [of ArrayIterator_next ArrayIterator_next "Array_iter [1::nat, 2, 3]"
        "Array_iter ([]::nat list)" 2]
  have c1: "Zip_next ArrayIterator_next ArrayIterator_next
      (Zip (ArrayIterator [1::nat, 2] 2) (Array_iter [7::nat, 8])) =
      (None, Zip (ArrayIterator [1, 2] 2) (Array_iter [7, 8]))"
    using t1 a by simp
  have c2: "Zip_next ArrayIterator_next ArrayIterator_next
      (Zip (Array_iter [1::nat, 2]) (Array_iter ([]::nat list))) =
      (None, Zip (ArrayIterator [1, 2] 1) (Array_iter []))"
    using t2 b e by (simp add: Array_iter_def)
  have c3: "\<exists>second'. pulls (Zip_next ArrayIterator_next ArrayIterator_next) 2
      (Zip (Array_iter [1::nat, 2, 3]) (Array_iter ([]::nat list))) =
      ([None, None], Zip (ArrayIterator [1, 2, 3] 2) second')"
    using t3 sp e by (simp add: Array_iter_def numeral_2_eq_2)
  show ?thesis using sp e c1 c2 c3 by blast
qed

section \<open>InterleaveShortest\<close>

lemma InterleaveShortest_produces:
  "produces nxt1 a xs \<Longrightarrow> produces nxt2 b ys \<Longrightarrow>
   \<exists>zs. produces (InterleaveShortest_next nxt1 nxt2) (InterleaveShortest a b True) zs \<and>
        length zs = 2 * min (length xs) (length ys) + (if length ys < length xs then 1 else 0)"
proof (induction xs arbitrary: ys a b)
  case Nil
  then have "produces (InterleaveShortest_next nxt1 nxt2) (InterleaveShortest a b True) []"
    by (simp add: split_beta split: option.splits)
  then show ?case by (intro exI [of _ "[]"]) simp
next
  case (Cons x xs)
  from Cons.prems(1) have a1: "fst (nxt1 a) = Some x"
    and a2: "produces nxt1 (snd (nxt1 a)) xs" by simp_all
  have step1: "InterleaveShortest_next nxt1 nxt2 (InterleaveShortest a b True) =
      (Some x, InterleaveShortest (snd (nxt1 a)) b False)"
    using a1 by (simp add: split_beta split: option.splits)
  show ?case
  proof (cases ys)
    case Nil
    with Cons.prems(2) have "fst (nxt2 b) = None" by simp
    then have "fst (InterleaveShortest_next nxt1 nxt2
        (InterleaveShortest (snd (nxt1 a)) b False)) = None"
      by (simp add: split_beta split: option.splits)
    then have "produces (InterleaveShortest_next nxt1 nxt2) (InterleaveShortest a b True) [x]"
      using step1 by simp
    then show ?thesis using Nil by (intro exI [of _ "[x]"]) simp
  next
    case (Cons y ys')
    with Cons.prems(2) have b1: "fst (nxt2 b) = Some y"
      and b2: "produces nxt2 (snd (nxt2 b)) ys'" by simp_all
    have step2: "InterleaveShortest_next nxt1 nxt2
        (InterleaveShortest (snd (nxt1 a)) b False) =
        (Some y, InterleaveShortest (snd (nxt1 a)) (snd (nxt2 b)) True)"
      using b1 by (simp add: split_beta split: option.splits)
    from Cons.IH [OF a2 b2] obtain zs where
      z: "produces (InterleaveShortest_next nxt1 nxt2)
            (InterleaveShortest (snd (nxt1 a)) (snd (nxt2 b)) True) zs"
      and l: "length zs = 2 * min (length xs) (length ys') +
            (if length ys' < length xs then 1 else 0)"
      by blast
    have "produces (InterleaveShortest_next nxt1 nxt2) (InterleaveShortest a b True)
        (x # y # zs)"
      using step1 step2 z by simp
    then show ?thesis using l Cons by (intro exI [of _ "x # y # zs"]) simp
  qed
qed

text \<open>
  Claim C1. When the side that is due is exhausted, \<^verbatim>\<open>InterleaveShortest::next\<close>
  returns exhaustion, does not pull from the other side and does not flip
  \<^verbatim>\<open>yield_first\<close>. For a first iterator with remaining items \<open>xs\<close> and a second
  with remaining items \<open>ys\<close> the adapter, which starts with the first, yields
  \<open>2 * min (length xs) (length ys)\<close> items, and one more when the first is the longer;
  \<^verbatim>\<open>count()\<close> returns this number (as a \<^verbatim>\<open>size_t\<close>).
\<close>

theorem InterleaveShortest_no_fallback_count:
  "(fst (nxt1 first) = None \<longrightarrow>
      InterleaveShortest_next nxt1 nxt2 (InterleaveShortest first second True) =
        (None, InterleaveShortest (snd (nxt1 first)) second True)) \<and>
   (fst (nxt2 second) = None \<longrightarrow>
      InterleaveShortest_next nxt1 nxt2 (InterleaveShortest first second False) =
        (None, InterleaveShortest first (snd (nxt2 second)) False)) \<and>
   (produces nxt1 first xs \<and> produces nxt2 second ys \<longrightarrow>
      (\<exists>zs. produces (InterleaveShortest_next nxt1 nxt2)
              (Iterator_interleave_shortest first second) zs \<and>
            length zs = 2 * min (length xs) (length ys) +
              (if length ys < length xs then 1 else 0)) \<and>
      Iterator_count (InterleaveShortest_next nxt1 nxt2)
          (Iterator_interleave_shortest first second) =
        Some (of_nat (2 * min (length xs) (length ys) +
              (if length ys < length xs then 1 else 0))))"
proof (intro conjI impI)
  assume "fst (nxt1 first) = None"
  then show "InterleaveShortest_next nxt1 nxt2 (InterleaveShortest first second True) =
        (None, InterleaveShortest (snd (nxt1 first)) second True)"
    by (simp add: split_beta split: option.splits)
next
  assume "fst (nxt2 second) = None"
  then show "InterleaveShortest_next nxt1 nxt2 (InterleaveShortest first second False) =
        (None, InterleaveShortest first (snd (nxt2 second)) False)"
    by (simp add: split_beta split: option.splits)
next
  assume p: "produces nxt1 first xs \<and> produces nxt2 second ys"
  then obtain zs where
    z: "produces (InterleaveShortest_next nxt1 nxt2) (InterleaveShortest first second True) zs"
    and l: "length zs = 2 * min (length xs) (length ys) +
              (if length ys < length xs then 1 else 0)"
    using InterleaveShortest_produces [of nxt1 first xs nxt2 second ys] by blast
  show "\<exists>zs. produces (InterleaveShortest_next nxt1 nxt2)
              (Iterator_interleave_shortest first second) zs \<and>
            length zs = 2 * min (length xs) (length ys) +
              (if length ys < length xs then 1 else 0)"
    using z l unfolding Iterator_interleave_shortest_def by blast
  show "Iterator_count (InterleaveShortest_next nxt1 nxt2)
          (Iterator_interleave_shortest first second) =
        Some (of_nat (2 * min (length xs) (length ys) +
              (if length ys < length xs then 1 else 0)))"
    using Iterator_count_produces [OF z] l
    unfolding Iterator_interleave_shortest_def by simp
qed

theorem InterleaveShortest_no_fallback_count_witness:
  "InterleaveShortest_next ArrayIterator_next ArrayIterator_next
      (InterleaveShortest (Array_iter ([]::int list)) (Array_iter [5]) True) =
      (None, InterleaveShortest (Array_iter []) (Array_iter [5]) True) \<and>
   InterleaveShortest_next ArrayIterator_next ArrayIterator_next
      (InterleaveShortest (Array_iter [5::int]) (Array_iter []) False) =
      (None, InterleaveShortest (Array_iter [5]) (Array_iter []) False) \<and>
   produces ArrayIterator_next (Array_iter [1::int, 2, 3, 4]) [1, 2, 3, 4] \<and>
   produces ArrayIterator_next (Array_iter [-1::int, -2]) [-1, -2] \<and>
   Iterator_count (InterleaveShortest_next ArrayIterator_next ArrayIterator_next)
      (Iterator_interleave_shortest (Array_iter [1::int, 2, 3, 4]) (Array_iter [-1, -2])) =
      Some 5"
proof -
  have e: "fst (ArrayIterator_next (Array_iter ([]::int list))) = None"
    by (simp add: Array_iter_def)
  have p1: "produces ArrayIterator_next (Array_iter [1::int, 2, 3, 4]) [1, 2, 3, 4]"
    by (rule Array_iter_produces)
  have p2: "produces ArrayIterator_next (Array_iter [-1::int, -2]) [-1, -2]"
    by (rule Array_iter_produces)
  note t1 = InterleaveShortest_no_fallback_count
    [of ArrayIterator_next "Array_iter ([]::int list)" ArrayIterator_next "Array_iter [5]"
        "[]" "[]"]
  note t2 = InterleaveShortest_no_fallback_count
    [of ArrayIterator_next "Array_iter [5::int]" ArrayIterator_next "Array_iter []"
        "[]" "[]"]
  note t3 = InterleaveShortest_no_fallback_count
    [of ArrayIterator_next "Array_iter [1::int, 2, 3, 4]" ArrayIterator_next
        "Array_iter [-1, -2]" "[1, 2, 3, 4]" "[-1, -2]"]
  have c1: "InterleaveShortest_next ArrayIterator_next ArrayIterator_next
      (InterleaveShortest (Array_iter ([]::int list)) (Array_iter [5]) True) =
      (None, InterleaveShortest (Array_iter []) (Array_iter [5]) True)"
    using t1 e by (simp add: Array_iter_def)
  have c2: "InterleaveShortest_next ArrayIterator_next ArrayIterator_next
      (InterleaveShortest (Array_iter [5::int]) (Array_iter []) False) =
      (None, InterleaveShortest (Array_iter [5]) (Array_iter []) False)"
    using t2 e by (simp add: Array_iter_def)
  have c3: "Iterator_count (InterleaveShortest_next ArrayIterator_next ArrayIterator_next)
      (Iterator_interleave_shortest (Array_iter [1::int, 2, 3, 4]) (Array_iter [-1, -2])) =
      Some 5"
    using t3 p1 p2 by simp
  show ?thesis using c1 c2 p1 p2 c3 by blast
qed

section \<open>Cycle\<close>

lemma produces_iff_pulls:
  "produces nxt s ys \<longleftrightarrow> fst (pulls nxt (Suc (length ys)) s) = map Some ys @ [None]"
proof (induction ys arbitrary: s)
  case Nil
  show ?case by (simp add: split_beta)
next
  case (Cons y ys)
  show ?case using Cons.IH [of "snd (nxt s)"] by (simp add: split_beta)
qed

lemma Cycle_pulls:
  assumes src: "produces nxt s xs" and ne: "xs \<noteq> []"
  shows "produces nxt t (drop j xs) \<Longrightarrow> j \<le> length xs \<Longrightarrow>
    fst (pulls (Cycle_next nxt) n (Cycle s t)) =
      map (\<lambda>i. Some (xs ! ((j + i) mod length xs))) [0..<n]"
proof (induction n arbitrary: t j)
  case 0
  then show ?case by simp
next
  case (Suc n)
  show ?case
  proof (cases "j < length xs")
    case True
    then have d: "drop j xs = xs ! j # drop (Suc j) xs" by (simp add: Cons_nth_drop_Suc)
    with Suc.prems(1) have t1: "fst (nxt t) = Some (xs ! j)"
      and t2: "produces nxt (snd (nxt t)) (drop (Suc j) xs)" by simp_all
    have step: "Cycle_next nxt (Cycle s t) = (Some (xs ! j), Cycle s (snd (nxt t)))"
      using t1 by (simp add: split_beta split: option.splits)
    have ih: "fst (pulls (Cycle_next nxt) n (Cycle s (snd (nxt t)))) =
        map (\<lambda>i. Some (xs ! ((Suc j + i) mod length xs))) [0..<n]"
      using Suc.IH [OF t2] True by simp
    show ?thesis
      using step ih True by (simp add: map_upt_Suc split_beta del: upt_Suc)
  next
    case False
    with Suc.prems(2) have j: "j = length xs" by simp
    with Suc.prems(1) have t1: "fst (nxt t) = None" by simp
    obtain x xs' where xs: "xs = x # xs'" using ne by (cases xs) auto
    with src have s1: "fst (nxt s) = Some x" and s2: "produces nxt (snd (nxt s)) (drop 1 xs)"
      by simp_all
    have step: "Cycle_next nxt (Cycle s t) = (Some x, Cycle s (snd (nxt s)))"
      using t1 s1 by (simp add: split_beta split: option.splits)
    have ih: "fst (pulls (Cycle_next nxt) n (Cycle s (snd (nxt s)))) =
        map (\<lambda>i. Some (xs ! ((1 + i) mod length xs))) [0..<n]"
      using Suc.IH [OF s2] xs by simp
    have "x = xs ! ((j + 0) mod length xs)" using j xs by simp
    moreover have "\<And>i. (j + Suc i) mod length xs = (1 + i) mod length xs"
      unfolding j by (metis mod_add_self1 plus_1_eq_Suc)
    ultimately show ?thesis
      using step ih by (simp add: map_upt_Suc split_beta del: upt_Suc)
  qed
qed

lemma Cycle_empty_pulls:
  assumes sp: "single_pass nxt" and e: "fst (nxt s) = None"
  shows "fst (nxt t) = None \<Longrightarrow>
    fst (pulls (Cycle_next nxt) n (Cycle s t)) = replicate n None"
proof (induction n arbitrary: t)
  case 0
  then show ?case by simp
next
  case (Suc n)
  have step: "Cycle_next nxt (Cycle s t) = (None, Cycle s (snd (nxt s)))"
    using Suc.prems e by (simp add: split_beta split: option.splits)
  have "fst (nxt (snd (nxt s))) = None" using sp e by (simp add: single_pass_def)
  from Suc.IH [OF this] show ?case using step by (simp add: split_beta)
qed

text \<open>
  Claim C4. When the working iterator is exhausted, \<^verbatim>\<open>Cycle::next\<close> resets it to
  \<^verbatim>\<open>original\<close> and returns what one pull from the reset iterator gives. For a source with
  remaining items \<open>xs\<close>, not empty, \<^verbatim>\<open>cycle().take(k)\<close> is a finite iterator whose
  item at position \<open>i < k\<close> is \<open>xs ! (i mod length xs)\<close>. For a single-pass source
  with no item left every call of \<^verbatim>\<open>next\<close> on \<^verbatim>\<open>cycle()\<close> returns exhaustion.
\<close>

theorem Cycle_take_positions:
  "(fst (nxt inner) = None \<longrightarrow>
      Cycle_next nxt (Cycle original inner) =
        (fst (nxt original), Cycle original (snd (nxt original)))) \<and>
   (produces nxt s xs \<and> xs \<noteq> [] \<longrightarrow>
      produces (Take_next (Cycle_next nxt)) (Iterator_take (Iterator_cycle s) k)
        (map (\<lambda>i. xs ! (i mod length xs)) [0..<unat k])) \<and>
   (single_pass nxt \<and> produces nxt s [] \<longrightarrow>
      fst (pulls (Cycle_next nxt) n (Iterator_cycle s)) = replicate n None)"
proof (intro conjI impI)
  assume "fst (nxt inner) = None"
  then show "Cycle_next nxt (Cycle original inner) =
        (fst (nxt original), Cycle original (snd (nxt original)))"
    by (simp add: split_beta split: option.splits)
next
  assume a: "produces nxt s xs \<and> xs \<noteq> []"
  then have "produces nxt s (drop 0 xs)" by simp
  from Cycle_pulls [of nxt s xs s 0 "unat k", OF _ _ this] a
  have c: "fst (pulls (Cycle_next nxt) (unat k) (Cycle s s)) =
      map (\<lambda>i. Some (xs ! (i mod length xs))) [0..<unat k]" by simp
  have "fst (pulls (Take_next (Cycle_next nxt)) (Suc (unat k)) (Take (Cycle s s) k)) =
      map Some (map (\<lambda>i. xs ! (i mod length xs)) [0..<unat k]) @ [None]"
    unfolding Take_pulls using c by (simp add: o_def)
  then show "produces (Take_next (Cycle_next nxt)) (Iterator_take (Iterator_cycle s) k)
        (map (\<lambda>i. xs ! (i mod length xs)) [0..<unat k])"
    by (simp add: produces_iff_pulls Iterator_take_def Iterator_cycle_def)
next
  assume "single_pass nxt \<and> produces nxt s []"
  then show "fst (pulls (Cycle_next nxt) n (Iterator_cycle s)) = replicate n None"
    using Cycle_empty_pulls [of nxt s s n] by (simp add: Iterator_cycle_def)
qed

theorem Cycle_take_positions_witness:
  "Cycle_next ArrayIterator_next (Cycle (Array_iter [1::int, 2, 3]) (ArrayIterator [1, 2, 3] 3)) =
      (Some 1, Cycle (Array_iter [1, 2, 3]) (ArrayIterator [1, 2, 3] 1)) \<and>
   produces ArrayIterator_next (Array_iter [1::int, 2, 3]) [1, 2, 3] \<and>
   produces (Take_next (Cycle_next ArrayIterator_next))
      (Iterator_take (Iterator_cycle (Array_iter [1::int, 2, 3])) 5) [1, 2, 3, 1, 2] \<and>
   single_pass (ArrayIterator_next :: (int ArrayIterator, int) pull) \<and>
   produces ArrayIterator_next (Array_iter ([]::int list)) [] \<and>
   fst (pulls (Cycle_next ArrayIterator_next) 3 (Iterator_cycle (Array_iter ([]::int list)))) =
      [None, None, None]"
proof -
  have sp: "single_pass (ArrayIterator_next :: (int ArrayIterator, int) pull)"
    by (rule ArrayIterator_single_pass)
  have p1: "produces ArrayIterator_next (Array_iter [1::int, 2, 3]) [1, 2, 3]"
    by (rule Array_iter_produces)
  have p0: "produces ArrayIterator_next (Array_iter ([]::int list)) []"
    by (rule Array_iter_produces)
  have e: "fst (ArrayIterator_next (ArrayIterator [1::int, 2, 3] 3)) = None" by simp
  note t1 = Cycle_take_positions
    [of ArrayIterator_next "ArrayIterator [1::int, 2, 3] 3" "Array_iter [1::int, 2, 3]"
        "Array_iter [1::int, 2, 3]" "[1, 2, 3]" 5 0]
  note t2 = Cycle_take_positions
    [of ArrayIterator_next "Array_iter ([]::int list)" "Array_iter ([]::int list)"
        "Array_iter ([]::int list)" "[]" 0 3]
  have m: "map (\<lambda>i. [1::int, 2, 3] ! (i mod length [1::int, 2, 3])) [0..<unat (5::size_t)] =
      [1, 2, 3, 1, 2]" by (simp add: upt_rec)
  have c1: "Cycle_next ArrayIterator_next
      (Cycle (Array_iter [1::int, 2, 3]) (ArrayIterator [1, 2, 3] 3)) =
      (Some 1, Cycle (Array_iter [1, 2, 3]) (ArrayIterator [1, 2, 3] 1))"
    using t1 e by (simp add: Array_iter_def)
  have c2: "produces (Take_next (Cycle_next ArrayIterator_next))
      (Iterator_take (Iterator_cycle (Array_iter [1::int, 2, 3])) 5) [1, 2, 3, 1, 2]"
  proof -
    have "produces (Take_next (Cycle_next ArrayIterator_next))
        (Iterator_take (Iterator_cycle (Array_iter [1::int, 2, 3])) 5)
        (map (\<lambda>i. [1::int, 2, 3] ! (i mod length [1::int, 2, 3])) [0..<unat (5::size_t)])"
      using t1 p1 by blast
    then show ?thesis by (simp only: m)
  qed
  have c3: "fst (pulls (Cycle_next ArrayIterator_next) 3
      (Iterator_cycle (Array_iter ([]::int list)))) = [None, None, None]"
    using t2 sp p0 by (simp add: numeral_3_eq_3)
  show ?thesis using c1 p1 c2 sp p0 c3 by blast
qed

section \<open>StepBy with step 0\<close>

lemma StepBy_loop_drains:
  assumes sp: "single_pass nxt"
  shows "produces nxt t ys \<Longrightarrow> length ys \<le> unat (step - i) \<Longrightarrow>
    fst (nxt (StepBy_loop nxt step i t)) = None"
proof (induction ys arbitrary: t i)
  case Nil
  then have e: "fst (nxt t) = None" by simp
  then have e': "fst (nxt (snd (nxt t))) = None" using sp by (simp add: single_pass_def)
  show ?case
    using e e' by (subst StepBy_loop.simps) (simp add: split_beta split: option.splits)
next
  case (Cons y ys)
  from Cons.prems(1) have t1: "fst (nxt t) = Some y"
    and t2: "produces nxt (snd (nxt t)) ys" by simp_all
  from Cons.prems(2) have pos: "0 < unat (step - i)" by simp
  then have ne: "i \<noteq> step" by (auto simp: unat_gt_0)
  have nz: "step - i \<noteq> 0" using ne by simp
  have eq: "step - (i + 1) = step - i - 1" by simp
  have "unat (step - (i + 1)) = unat (step - i) - 1"
    by (simp only: eq unat_minus_one [OF nz])
  with Cons.prems(2) have "length ys \<le> unat (step - (i + 1))" by simp
  from Cons.IH [OF t2 this]
  have "fst (nxt (StepBy_loop nxt step (i + 1) (snd (nxt t)))) = None" .
  moreover have "StepBy_loop nxt step i t = StepBy_loop nxt step (i + 1) (snd (nxt t))"
    using ne t1 by (subst StepBy_loop.simps) (simp add: split_beta split: option.splits)
  ultimately show ?case by simp
qed

lemma StepBy_exhausted_pulls:
  assumes sp: "single_pass nxt"
  shows "fst (nxt t) = None \<Longrightarrow>
    fst (pulls (StepBy_next nxt) n (StepBy t step)) = replicate n None"
proof (induction n arbitrary: t)
  case 0
  then show ?case by simp
next
  case (Suc n)
  have step: "StepBy_next nxt (StepBy t step) = (None, StepBy (snd (nxt t)) step)"
    using Suc.prems by (simp add: split_beta split: option.splits)
  have "fst (nxt (snd (nxt t))) = None" using sp Suc.prems by (simp add: single_pass_def)
  from Suc.IH [OF this] show ?case using step by (simp add: split_beta)
qed

text \<open>
  Claim C9. \<^verbatim>\<open>step_by(0)\<close> on a single-pass source with remaining items \<open>x # xs\<close>:
  the first call of \<^verbatim>\<open>next\<close> returns \<open>x\<close>, and its discard loop, whose counter runs
  from 1 until it wraps to 0, leaves the inner iterator exhausted; every later call
  returns exhaustion, and \<^verbatim>\<open>count()\<close> is 1. On a source with no item left
  \<^verbatim>\<open>count()\<close> is 0. The counter wraps after \<open>2 ^ 64 - 1\<close> discards, so \<open>xs\<close> is
  shorter than \<open>2 ^ 64\<close>.
\<close>

theorem StepBy_zero_yields_first_only:
  "(single_pass nxt \<and> produces nxt s (x # xs) \<and> length xs < 2 ^ 64 \<longrightarrow>
      fst (pulls (StepBy_next nxt) (Suc n) (Iterator_step_by s 0)) = Some x # replicate n None \<and>
      (\<exists>inner'. snd (StepBy_next nxt (Iterator_step_by s 0)) = StepBy inner' 0 \<and>
                fst (nxt inner') = None) \<and>
      Iterator_count (StepBy_next nxt) (Iterator_step_by s 0) = Some 1) \<and>
   (produces nxt s [] \<longrightarrow>
      Iterator_count (StepBy_next nxt) (Iterator_step_by s 0) = Some 0)"
proof (intro conjI impI)
  assume a: "single_pass nxt \<and> produces nxt s (x # xs) \<and> length xs < 2 ^ 64"
  then have sp: "single_pass nxt" and s1: "fst (nxt s) = Some x"
    and s2: "produces nxt (snd (nxt s)) xs" and len: "length xs < 2 ^ 64" by simp_all
  let ?t = "StepBy_loop nxt 0 1 (snd (nxt s))"
  have "unat (0 - 1 :: size_t) = 2 ^ 64 - 1" by (simp add: unsigned_minus_1_eq_mask mask_eq_exp_minus_1)
  then have "length xs \<le> unat (0 - 1 :: size_t)" using len by simp
  from StepBy_loop_drains [OF sp s2 this] have e: "fst (nxt ?t) = None" .
  have first: "StepBy_next nxt (StepBy s 0) = (Some x, StepBy ?t 0)"
    using s1 by (simp add: split_beta split: option.splits)
  show "fst (pulls (StepBy_next nxt) (Suc n) (Iterator_step_by s 0)) = Some x # replicate n None"
    using first StepBy_exhausted_pulls [OF sp e, of n 0]
    by (simp add: Iterator_step_by_def split_beta)
  show "\<exists>inner'. snd (StepBy_next nxt (Iterator_step_by s 0)) = StepBy inner' 0 \<and>
                fst (nxt inner') = None"
    using first e by (simp add: Iterator_step_by_def)
  have "fst (StepBy_next nxt (StepBy ?t 0)) = None"
    using e by (simp add: split_beta split: option.splits)
  then have "produces (StepBy_next nxt) (StepBy s 0) [x]" using first by simp
  from Iterator_count_produces [OF this]
  show "Iterator_count (StepBy_next nxt) (Iterator_step_by s 0) = Some 1"
    by (simp add: Iterator_step_by_def)
next
  assume "produces nxt s []"
  then have "produces (StepBy_next nxt) (StepBy s 0) []"
    by (simp add: split_beta split: option.splits)
  from Iterator_count_produces [OF this]
  show "Iterator_count (StepBy_next nxt) (Iterator_step_by s 0) = Some 0"
    by (simp add: Iterator_step_by_def)
qed

theorem StepBy_zero_yields_first_only_witness:
  "single_pass (ArrayIterator_next :: (int ArrayIterator, int) pull) \<and>
   produces ArrayIterator_next (Array_iter [1::int, 2, 3]) [1, 2, 3] \<and>
   length [2::int, 3] < 2 ^ 64 \<and>
   fst (pulls (StepBy_next ArrayIterator_next) 3 (Iterator_step_by (Array_iter [1::int, 2, 3]) 0)) =
     [Some 1, None, None] \<and>
   Iterator_count (StepBy_next ArrayIterator_next) (Iterator_step_by (Array_iter [1::int, 2, 3]) 0) =
     Some 1 \<and>
   produces ArrayIterator_next (Array_iter ([]::int list)) [] \<and>
   Iterator_count (StepBy_next ArrayIterator_next) (Iterator_step_by (Array_iter ([]::int list)) 0) =
     Some 0"
proof -
  have sp: "single_pass (ArrayIterator_next :: (int ArrayIterator, int) pull)"
    by (rule ArrayIterator_single_pass)
  have p1: "produces ArrayIterator_next (Array_iter [1::int, 2, 3]) [1, 2, 3]"
    by (rule Array_iter_produces)
  have p0: "produces ArrayIterator_next (Array_iter ([]::int list)) []"
    by (rule Array_iter_produces)
  have l: "length [2::int, 3] < 2 ^ 64" by simp
  note t1 = StepBy_zero_yields_first_only
    [of ArrayIterator_next "Array_iter [1::int, 2, 3]" 1 "[2, 3]" 2]
  note t2 = StepBy_zero_yields_first_only
    [of ArrayIterator_next "Array_iter ([]::int list)" 0 "[]" 0]
  have c1: "fst (pulls (StepBy_next ArrayIterator_next) (Suc 2)
      (Iterator_step_by (Array_iter [1::int, 2, 3]) 0)) = Some 1 # replicate 2 None"
    using t1 sp p1 l by blast
  have c1': "fst (pulls (StepBy_next ArrayIterator_next) 3
      (Iterator_step_by (Array_iter [1::int, 2, 3]) 0)) = [Some 1, None, None]"
    using c1 by (simp only: numeral_3_eq_3 numeral_2_eq_2 replicate.simps)
  have c2: "Iterator_count (StepBy_next ArrayIterator_next)
      (Iterator_step_by (Array_iter [1::int, 2, 3]) 0) = Some 1"
    using t1 sp p1 l by blast
  have c3: "Iterator_count (StepBy_next ArrayIterator_next)
      (Iterator_step_by (Array_iter ([]::int list)) 0) = Some 0"
    using t2 p0 by blast
  show ?thesis using sp p1 l c1' c2 p0 c3 by blast
qed

section \<open>SkipWhile\<close>

lemma SkipWhile_loop_produces:
  "produces nxt s xs \<Longrightarrow>
   \<exists>s'. SkipWhile_loop nxt p s =
          Some (case dropWhile p xs of [] \<Rightarrow> None | y # ys \<Rightarrow> Some y, s') \<and>
        (dropWhile p xs \<noteq> [] \<longrightarrow> produces nxt s' (tl (dropWhile p xs)))"
proof (induction xs arbitrary: s)
  case Nil
  then show ?case
    by (subst SkipWhile_loop.simps) (simp add: split_beta split: option.splits)
next
  case (Cons x xs)
  from Cons.prems have s1: "fst (nxt s) = Some x"
    and s2: "produces nxt (snd (nxt s)) xs" by simp_all
  show ?case
  proof (cases "p x")
    case True
    have "SkipWhile_loop nxt p s = SkipWhile_loop nxt p (snd (nxt s))"
      using s1 True by (subst SkipWhile_loop.simps) (simp add: split_beta)
    then show ?thesis using Cons.IH [OF s2] True by simp
  next
    case False
    have "SkipWhile_loop nxt p s = Some (Some x, snd (nxt s))"
      using s1 False by (subst SkipWhile_loop.simps) (simp add: split_beta)
    then show ?thesis using False s2 by simp
  qed
qed

lemma SkipWhile_skipped_produces:
  "produces nxt t ys \<Longrightarrow> produces_loop (SkipWhile_next nxt) (SkipWhile t p True) ys"
proof (induction ys arbitrary: t)
  case Nil
  then show ?case by (simp add: split_beta)
next
  case (Cons y ys)
  then show ?case by (simp add: split_beta)
qed

text \<open>
  Claim C6. On a source with remaining items \<open>xs\<close> the first call of
  \<^verbatim>\<open>SkipWhile::next\<close> returns: it discards the items while \<open>p\<close> holds, yields the first
  item for which \<open>p\<close> is false (exhaustion when there is none) and sets \<^verbatim>\<open>skipped\<close>.
  With \<^verbatim>\<open>skipped\<close> set a call returns what the inner iterator returns, whatever the
  predicate, and \<^verbatim>\<open>skipped\<close> stays set. The adapter yields \<open>dropWhile p xs\<close>.
\<close>

theorem SkipWhile_skips_once:
  "(produces nxt s xs \<longrightarrow>
      (\<exists>s'. SkipWhile_next nxt (Iterator_skip_while s p) =
          Some (case dropWhile p xs of [] \<Rightarrow> None | y # ys \<Rightarrow> Some y, SkipWhile s' p True)) \<and>
      produces_loop (SkipWhile_next nxt) (Iterator_skip_while s p) (dropWhile p xs)) \<and>
   SkipWhile_next nxt (SkipWhile inner q True) =
      Some (fst (nxt inner), SkipWhile (snd (nxt inner)) q True)"
proof (intro conjI impI)
  assume a: "produces nxt s xs"
  from SkipWhile_loop_produces [OF a, of p] obtain s' where
    l: "SkipWhile_loop nxt p s =
          Some (case dropWhile p xs of [] \<Rightarrow> None | y # ys \<Rightarrow> Some y, s')"
    and r: "dropWhile p xs \<noteq> [] \<longrightarrow> produces nxt s' (tl (dropWhile p xs))"
    by blast
  have first: "SkipWhile_next nxt (SkipWhile s p False) =
      Some (case dropWhile p xs of [] \<Rightarrow> None | y # ys \<Rightarrow> Some y, SkipWhile s' p True)"
    using l by simp
  then show "\<exists>s'. SkipWhile_next nxt (Iterator_skip_while s p) =
          Some (case dropWhile p xs of [] \<Rightarrow> None | y # ys \<Rightarrow> Some y, SkipWhile s' p True)"
    by (auto simp: Iterator_skip_while_def)
  show "produces_loop (SkipWhile_next nxt) (Iterator_skip_while s p) (dropWhile p xs)"
  proof (cases "dropWhile p xs")
    case Nil
    have "SkipWhile_next nxt (SkipWhile s p False) = Some (None, SkipWhile s' p True)"
      using first unfolding Nil by (simp only: list.case)
    then show ?thesis
      unfolding Nil Iterator_skip_while_def by (simp del: SkipWhile_next.simps)
  next
    case (Cons y ys)
    with r have "produces nxt s' ys" by simp
    from SkipWhile_skipped_produces [OF this, of p]
    have rest: "produces_loop (SkipWhile_next nxt) (SkipWhile s' p True) ys" .
    have "SkipWhile_next nxt (SkipWhile s p False) = Some (Some y, SkipWhile s' p True)"
      using first unfolding Cons by (simp only: list.case)
    then show ?thesis
      unfolding Cons Iterator_skip_while_def using rest by (simp del: SkipWhile_next.simps)
  qed
next
  show "SkipWhile_next nxt (SkipWhile inner q True) =
      Some (fst (nxt inner), SkipWhile (snd (nxt inner)) q True)"
    by (simp add: split_beta)
qed

theorem SkipWhile_skips_once_witness:
  "produces ArrayIterator_next (Array_iter [2::nat, 4, 5, 6, 7]) [2, 4, 5, 6, 7] \<and>
   (\<exists>s'. SkipWhile_next ArrayIterator_next
       (Iterator_skip_while (Array_iter [2::nat, 4, 5, 6, 7]) (\<lambda>v. v mod 2 = 0)) =
       Some (Some 5, SkipWhile s' (\<lambda>v. v mod 2 = 0) True)) \<and>
   produces_loop (SkipWhile_next ArrayIterator_next)
       (Iterator_skip_while (Array_iter [2::nat, 4, 5, 6, 7]) (\<lambda>v. v mod 2 = 0)) [5, 6, 7] \<and>
   SkipWhile_next ArrayIterator_next
       (SkipWhile (ArrayIterator [2::nat, 4, 5, 6, 7] 3) (\<lambda>v. v mod 2 = 0) True) =
       Some (Some 6, SkipWhile (ArrayIterator [2, 4, 5, 6, 7] 4) (\<lambda>v. v mod 2 = 0) True)"
proof -
  have p1: "produces ArrayIterator_next (Array_iter [2::nat, 4, 5, 6, 7]) [2, 4, 5, 6, 7]"
    by (rule Array_iter_produces)
  have d: "dropWhile (\<lambda>v. v mod 2 = 0) [2::nat, 4, 5, 6, 7] = [5, 6, 7]" by simp
  note t1 = SkipWhile_skips_once
    [of ArrayIterator_next "Array_iter [2::nat, 4, 5, 6, 7]" "[2, 4, 5, 6, 7]"
        "\<lambda>v. v mod 2 = 0" "ArrayIterator [2::nat, 4, 5, 6, 7] 3" "\<lambda>v. v mod 2 = 0"]
  have c1: "\<exists>s'. SkipWhile_next ArrayIterator_next
       (Iterator_skip_while (Array_iter [2::nat, 4, 5, 6, 7]) (\<lambda>v. v mod 2 = 0)) =
       Some (Some 5, SkipWhile s' (\<lambda>v. v mod 2 = 0) True)"
    using t1 p1 unfolding d by simp
  have c2: "produces_loop (SkipWhile_next ArrayIterator_next)
       (Iterator_skip_while (Array_iter [2::nat, 4, 5, 6, 7]) (\<lambda>v. v mod 2 = 0)) [5, 6, 7]"
    using t1 p1 unfolding d by blast
  have c3: "SkipWhile_next ArrayIterator_next
       (SkipWhile (ArrayIterator [2::nat, 4, 5, 6, 7] 3) (\<lambda>v. v mod 2 = 0) True) =
       Some (Some 6, SkipWhile (ArrayIterator [2, 4, 5, 6, 7] 4) (\<lambda>v. v mod 2 = 0) True)"
    using t1 by simp
  show ?thesis using p1 c1 c2 c3 by blast
qed

section \<open>Terminal operations on an exhausted iterator\<close>

text \<open>
  Claim C7. On an iterator whose \<^verbatim>\<open>next\<close> signals exhaustion, \<^verbatim>\<open>all\<close> returns true,
  \<^verbatim>\<open>any\<close> false, \<^verbatim>\<open>none\<close> true and \<^verbatim>\<open>find\<close> the empty optional, for every
  predicate. \<^verbatim>\<open>max\<close> and \<^verbatim>\<open>min\<close> pull twice before they compare anything (once for
  the first candidate, once in \<^verbatim>\<open>begin()\<close>); on a single-pass exhausted iterator they
  return the empty optional, with no fault.
\<close>

theorem terminal_ops_on_exhausted:
  "(fst (nxt s) = None \<longrightarrow>
      Iterator_all nxt p s = Some True \<and>
      Iterator_any nxt p s = Some False \<and>
      Iterator_none nxt p s = Some True \<and>
      Iterator_find nxt p s = Some None) \<and>
   (single_pass nxt \<and> fst (nxt s) = None \<longrightarrow>
      Iterator_max nxt gt s = Some (Inr None) \<and>
      Iterator_min nxt lt s = Some (Inr None))"
proof (intro conjI impI)
  assume e: "fst (nxt s) = None"
  show "Iterator_all nxt p s = Some True"
    using e by (subst Iterator_all.simps) (simp add: split_beta)
  show "Iterator_any nxt p s = Some False"
    using e by (subst Iterator_any.simps) (simp add: split_beta)
  show "Iterator_none nxt p s = Some True"
    using e by (subst Iterator_none.simps) (simp add: split_beta)
  show "Iterator_find nxt p s = Some None"
    using e by (subst Iterator_find.simps) (simp add: split_beta)
next
  assume a: "single_pass nxt \<and> fst (nxt s) = None"
  then have e: "fst (nxt s) = None" and e': "fst (nxt (snd (nxt s))) = None"
    by (simp_all add: single_pass_def)
  have "max_loop nxt gt None (snd (nxt s)) = Some (Inr None)"
    using e' by (subst max_loop.simps) (simp add: split_beta)
  then show "Iterator_max nxt gt s = Some (Inr None)"
    using e by (simp add: Iterator_max_def split_beta)
  have "min_loop nxt lt None (snd (nxt s)) = Some (Inr None)"
    using e' by (subst min_loop.simps) (simp add: split_beta)
  then show "Iterator_min nxt lt s = Some (Inr None)"
    using e by (simp add: Iterator_min_def split_beta)
qed

theorem terminal_ops_on_exhausted_witness:
  "single_pass (ArrayIterator_next :: (int ArrayIterator, int) pull) \<and>
   fst (ArrayIterator_next (ArrayIterator [1::int, 2] 2)) = None \<and>
   Iterator_all ArrayIterator_next (\<lambda>v. v < 0) (ArrayIterator [1::int, 2] 2) = Some True \<and>
   Iterator_any ArrayIterator_next (\<lambda>v. 0 < v) (ArrayIterator [1::int, 2] 2) = Some False \<and>
   Iterator_none ArrayIterator_next (\<lambda>v. 0 < v) (ArrayIterator [1::int, 2] 2) = Some True \<and>
   Iterator_find ArrayIterator_next (\<lambda>v. 0 < v) (ArrayIterator [1::int, 2] 2) = Some None \<and>
   Iterator_max ArrayIterator_next (\<lambda>a b. b < a) (ArrayIterator [1::int, 2] 2) = Some (Inr None) \<and>
   Iterator_min ArrayIterator_next (\<lambda>a b. a < b) (ArrayIterator [1::int, 2] 2) = Some (Inr None)"
proof -
  have sp: "single_pass (ArrayIterator_next :: (int ArrayIterator, int) pull)"
    by (rule ArrayIterator_single_pass)
  have e: "fst (ArrayIterator_next (ArrayIterator [1::int, 2] 2)) = None" by simp
  note t1 = terminal_ops_on_exhausted
    [of ArrayIterator_next "ArrayIterator [1::int, 2] 2" "\<lambda>v. v < 0" "\<lambda>a b. b < a" "\<lambda>a b. a < b"]
  note t2 = terminal_ops_on_exhausted
    [of ArrayIterator_next "ArrayIterator [1::int, 2] 2" "\<lambda>v. 0 < v" "\<lambda>a b. b < a" "\<lambda>a b. a < b"]
  show ?thesis using sp e t1 t2 by blast
qed

section \<open>max and min\<close>

lemma max_loop_produces:
  "produces nxt t ys \<Longrightarrow>
   max_loop nxt gt (Some m) t =
     Some (Inr (Some (foldl (\<lambda>m v. if gt v m then v else m) m ys)))"
proof (induction ys arbitrary: t m)
  case Nil
  then show ?case by (subst max_loop.simps) (simp add: split_beta)
next
  case (Cons y ys)
  from Cons.prems have t1: "fst (nxt t) = Some y"
    and t2: "produces nxt (snd (nxt t)) ys" by simp_all
  have "max_loop nxt gt (Some m) t =
      max_loop nxt gt (Some (if gt y m then y else m)) (snd (nxt t))"
    using t1 by (subst max_loop.simps) (simp add: split_beta)
  then show ?case using Cons.IH [OF t2] by simp
qed

lemma min_loop_produces:
  "produces nxt t ys \<Longrightarrow>
   min_loop nxt lt (Some m) t =
     Some (Inr (Some (foldl (\<lambda>m v. if lt v m then v else m) m ys)))"
proof (induction ys arbitrary: t m)
  case Nil
  then show ?case by (subst min_loop.simps) (simp add: split_beta)
next
  case (Cons y ys)
  from Cons.prems have t1: "fst (nxt t) = Some y"
    and t2: "produces nxt (snd (nxt t)) ys" by simp_all
  have "min_loop nxt lt (Some m) t =
      min_loop nxt lt (Some (if lt y m then y else m)) (snd (nxt t))"
    using t1 by (subst min_loop.simps) (simp add: split_beta)
  then show ?case using Cons.IH [OF t2] by simp
qed

lemma first_best_replace:
  assumes swo: "strict_weak_order better" and fb: "first_best better pre i"
    and b: "better y (pre ! i)"
  shows "first_best better (pre @ [y]) (length pre)"
proof -
  from swo have irr: "\<And>a. \<not> better a a"
    and tr: "\<And>a b c. better a b \<Longrightarrow> better b c \<Longrightarrow> better a c"
    and ntr: "\<And>a b c. \<not> better a b \<Longrightarrow> \<not> better b c \<Longrightarrow> \<not> better a c"
    unfolding strict_weak_order_def by blast+
  from fb have i: "i < length pre"
    and mx: "\<And>j. j < length pre \<Longrightarrow> \<not> better (pre ! j) (pre ! i)"
    unfolding first_best_def by blast+
  have below: "better y (pre ! j)" if "j < length pre" for j
    using ntr [of y "pre ! j" "pre ! i"] mx [OF that] b by blast
  have notabove: "\<not> better (pre ! j) y" if "j < length pre" for j
    using tr [of "pre ! j" y "pre ! i"] mx [OF that] b by blast
  show ?thesis
    unfolding first_best_def
    using below notabove irr by (auto simp: nth_append less_Suc_eq)
qed

lemma first_best_keep:
  assumes fb: "first_best better pre i" and b: "\<not> better y (pre ! i)"
  shows "first_best better (pre @ [y]) i"
  using assms unfolding first_best_def by (auto simp: nth_append less_Suc_eq)

lemma first_best_foldl:
  assumes swo: "strict_weak_order better"
  shows "first_best better pre i \<Longrightarrow>
    \<exists>k. first_best better (pre @ ys) k \<and>
        (pre @ ys) ! k = foldl (\<lambda>m v. if better v m then v else m) (pre ! i) ys"
proof (induction ys arbitrary: pre i)
  case Nil
  then show ?case by auto
next
  case (Cons y ys)
  from Cons.prems have i: "i < length pre" by (simp add: first_best_def)
  show ?case
  proof (cases "better y (pre ! i)")
    case True
    from first_best_replace [OF swo Cons.prems True]
    have "first_best better (pre @ [y]) (length pre)" .
    from Cons.IH [OF this] show ?thesis using True by simp
  next
    case False
    from first_best_keep [OF Cons.prems False]
    have "first_best better (pre @ [y]) i" .
    from Cons.IH [OF this] show ?thesis using False i by (simp add: nth_append)
  qed
qed

lemma first_best_single: "strict_weak_order better \<Longrightarrow> first_best better [x] 0"
proof -
  assume "strict_weak_order better"
  then have "\<not> better x x" unfolding strict_weak_order_def by blast
  then show ?thesis by (simp add: first_best_def)
qed

lemma Iterator_max_produces:
  "produces nxt s (x # xs) \<Longrightarrow>
   Iterator_max nxt gt s = Some (Inr (Some (foldl (\<lambda>m v. if gt v m then v else m) x xs)))"
  using max_loop_produces [of nxt "snd (nxt s)" xs gt x]
  by (simp add: Iterator_max_def split_beta)

lemma Iterator_min_produces:
  "produces nxt s (x # xs) \<Longrightarrow>
   Iterator_min nxt lt s = Some (Inr (Some (foldl (\<lambda>m v. if lt v m then v else m) x xs)))"
  using min_loop_produces [of nxt "snd (nxt s)" xs lt x]
  by (simp add: Iterator_min_def split_beta)

lemma foldl_first_best:
  "strict_weak_order better \<Longrightarrow>
   \<exists>i. first_best better (x # xs) i \<and>
       (x # xs) ! i = foldl (\<lambda>m v. if better v m then v else m) x xs"
  using first_best_foldl [OF _ first_best_single, of better x xs] by simp

text \<open>
  Claim C8. On a source with remaining items \<open>x # xs\<close>, \<^verbatim>\<open>max()\<close> returns the
  left fold of the items that starts from \<open>x\<close> and replaces the current best \<open>m\<close> by
  an item \<open>v\<close> only when \<open>v > m\<close>; \<^verbatim>\<open>min()\<close> is the same with \<open>v < m\<close>. When
  the comparison is a strict weak order the result is the first-seen best item: no item
  is better and it is better than every item before it, so of tied best items the
  earliest is returned. \<^verbatim>\<open>min\<close> of \<open>["aaa", "aa", "b"]\<close> under the lexicographic order
  of strings is \<open>"aa"\<close>, and \<^verbatim>\<open>max\<close> is \<open>"b"\<close>.
\<close>

theorem max_min_keep_first_seen:
  "(produces nxt s (x # xs) \<longrightarrow>
      Iterator_max nxt gt s =
        Some (Inr (Some (foldl (\<lambda>m v. if gt v m then v else m) x xs))) \<and>
      Iterator_min nxt lt s =
        Some (Inr (Some (foldl (\<lambda>m v. if lt v m then v else m) x xs)))) \<and>
   (produces nxt s (x # xs) \<and> strict_weak_order gt \<longrightarrow>
      (\<exists>i. first_best gt (x # xs) i \<and>
           Iterator_max nxt gt s = Some (Inr (Some ((x # xs) ! i))))) \<and>
   (produces nxt s (x # xs) \<and> strict_weak_order lt \<longrightarrow>
      (\<exists>i. first_best lt (x # xs) i \<and>
           Iterator_min nxt lt s = Some (Inr (Some ((x # xs) ! i))))) \<and>
   Iterator_min ArrayIterator_next (\<lambda>a b. a < b) (Array_iter [''aaa'', ''aa'', ''b'']) =
      Some (Inr (Some ''aa'')) \<and>
   Iterator_max ArrayIterator_next (\<lambda>a b. a > b) (Array_iter [''aaa'', ''aa'', ''b'']) =
      Some (Inr (Some ''b''))"
proof (intro conjI impI)
  assume p: "produces nxt s (x # xs)"
  show "Iterator_max nxt gt s =
        Some (Inr (Some (foldl (\<lambda>m v. if gt v m then v else m) x xs)))"
    by (rule Iterator_max_produces [OF p])
  show "Iterator_min nxt lt s =
        Some (Inr (Some (foldl (\<lambda>m v. if lt v m then v else m) x xs)))"
    by (rule Iterator_min_produces [OF p])
next
  assume a: "produces nxt s (x # xs) \<and> strict_weak_order gt"
  then obtain i where "first_best gt (x # xs) i"
    and "(x # xs) ! i = foldl (\<lambda>m v. if gt v m then v else m) x xs"
    using foldl_first_best [of gt x xs] by blast
  then show "\<exists>i. first_best gt (x # xs) i \<and>
           Iterator_max nxt gt s = Some (Inr (Some ((x # xs) ! i)))"
    using Iterator_max_produces [of nxt s x xs gt] a by auto
next
  assume a: "produces nxt s (x # xs) \<and> strict_weak_order lt"
  then obtain i where "first_best lt (x # xs) i"
    and "(x # xs) ! i = foldl (\<lambda>m v. if lt v m then v else m) x xs"
    using foldl_first_best [of lt x xs] by blast
  then show "\<exists>i. first_best lt (x # xs) i \<and>
           Iterator_min nxt lt s = Some (Inr (Some ((x # xs) ! i)))"
    using Iterator_min_produces [of nxt s x xs lt] a by auto
next
  have lt1: "\<not> ''aaa'' < ''aa''" and lt2: "\<not> ''b'' < ''aa''" and lt3: "''aa'' < ''aaa''"
    by simp_all
  show "Iterator_min ArrayIterator_next (\<lambda>a b. a < b) (Array_iter [''aaa'', ''aa'', ''b'']) =
      Some (Inr (Some ''aa''))"
    unfolding Iterator_min_produces [OF Array_iter_produces [of "[''aaa'', ''aa'', ''b'']"]]
    using lt1 lt2 lt3 by (simp only: foldl.simps if_True if_False)
next
  have gt1: "\<not> ''aa'' > ''aaa''" and gt2: "''b'' > ''aaa''" by simp_all
  show "Iterator_max ArrayIterator_next (\<lambda>a b. a > b) (Array_iter [''aaa'', ''aa'', ''b'']) =
      Some (Inr (Some ''b''))"
    unfolding Iterator_max_produces [OF Array_iter_produces [of "[''aaa'', ''aa'', ''b'']"]]
    using gt1 gt2 by (simp only: foldl.simps if_True if_False)
qed

theorem max_min_keep_first_seen_witness:
  "produces ArrayIterator_next (Array_iter [(3::nat, 0::nat), (5, 1), (5, 2), (1, 3), (1, 4)])
      [(3, 0), (5, 1), (5, 2), (1, 3), (1, 4)] \<and>
   strict_weak_order (\<lambda>a b :: nat \<times> nat. fst b < fst a) \<and>
   strict_weak_order (\<lambda>a b :: nat \<times> nat. fst a < fst b) \<and>
   Iterator_max ArrayIterator_next (\<lambda>a b. fst b < fst a)
      (Array_iter [(3::nat, 0::nat), (5, 1), (5, 2), (1, 3), (1, 4)]) = Some (Inr (Some (5, 1))) \<and>
   Iterator_min ArrayIterator_next (\<lambda>a b. fst a < fst b)
      (Array_iter [(3::nat, 0::nat), (5, 1), (5, 2), (1, 3), (1, 4)]) = Some (Inr (Some (1, 3))) \<and>
   (\<exists>i. first_best (\<lambda>a b :: nat \<times> nat. fst b < fst a)
          [(3, 0), (5, 1), (5, 2), (1, 3), (1, 4)] i \<and>
        [(3::nat, 0::nat), (5, 1), (5, 2), (1, 3), (1, 4)] ! i = (5, 1)) \<and>
   (\<exists>i. first_best (\<lambda>a b :: nat \<times> nat. fst a < fst b)
          [(3, 0), (5, 1), (5, 2), (1, 3), (1, 4)] i \<and>
        [(3::nat, 0::nat), (5, 1), (5, 2), (1, 3), (1, 4)] ! i = (1, 3))"
proof -
  let ?xs = "[(3::nat, 0::nat), (5, 1), (5, 2), (1, 3), (1, 4)]"
  let ?gt = "\<lambda>a b :: nat \<times> nat. fst b < fst a"
  let ?lt = "\<lambda>a b :: nat \<times> nat. fst a < fst b"
  have p: "produces ArrayIterator_next (Array_iter ?xs) ?xs" by (rule Array_iter_produces)
  have g: "strict_weak_order ?gt" unfolding strict_weak_order_def by auto
  have l: "strict_weak_order ?lt" unfolding strict_weak_order_def by auto
  note t = max_min_keep_first_seen
    [of ArrayIterator_next "Array_iter ?xs" "(3, 0)" "[(5, 1), (5, 2), (1, 3), (1, 4)]" ?gt ?lt]
  have mx: "Iterator_max ArrayIterator_next ?gt (Array_iter ?xs) = Some (Inr (Some (5, 1)))"
    using t p by simp
  have mn: "Iterator_min ArrayIterator_next ?lt (Array_iter ?xs) = Some (Inr (Some (1, 3)))"
    using t p by simp
  have fg: "\<exists>i. first_best ?gt ?xs i \<and> ?xs ! i = (5, 1)"
    using t p g mx by auto
  have fl: "\<exists>i. first_best ?lt ?xs i \<and> ?xs ! i = (1, 3)"
    using t p l mn by auto
  show ?thesis using p g l mx mn fg fl by blast
qed

section \<open>Materialization round trip\<close>

lemma from_iterator_loop_fills:
  "produces nxt t ys \<Longrightarrow> length pre + length ys < 2 ^ 64 \<Longrightarrow> length rest = length ys \<Longrightarrow>
   from_iterator_loop nxt (Enumerate t (of_nat (length pre))) (pre @ rest) =
     Some (Inr (pre @ ys))"
proof (induction ys arbitrary: t pre rest)
  case Nil
  then show ?case
    by (subst from_iterator_loop.simps) (simp add: split_beta split: option.splits)
next
  case (Cons y ys)
  from Cons.prems(1) have t1: "fst (nxt t) = Some y"
    and t2: "produces nxt (snd (nxt t)) ys" by simp_all
  from Cons.prems(3) obtain r rest' where rest: "rest = r # rest'"
    and lr: "length rest' = length ys" by (cases rest) auto
  have "length pre < 2 ^ 64" using Cons.prems(2) by simp
  then have u: "unat (of_nat (length pre) :: size_t) = length pre"
    by (simp add: unat_of_nat)
  have e: "Enumerate_next nxt (Enumerate t (of_nat (length pre))) =
      (Some (of_nat (length pre), y), Enumerate (snd (nxt t)) (of_nat (length (pre @ [y]))))"
    using t1 by (simp add: split_beta split: option.splits)
  have upd: "(pre @ rest)[length pre := y] = (pre @ [y]) @ rest'"
    using rest by simp
  have "from_iterator_loop nxt (Enumerate t (of_nat (length pre))) (pre @ rest) =
      from_iterator_loop nxt (Enumerate (snd (nxt t)) (of_nat (length (pre @ [y]))))
        ((pre @ [y]) @ rest')"
    apply (subst from_iterator_loop.simps)
    apply (simp only: e prod.case option.case u upd)
    apply (simp add: rest)
    done
  also have "\<dots> = Some (Inr ((pre @ [y]) @ ys))"
    using Cons.prems(2) by (intro Cons.IH [OF t2 _ lr]) simp
  finally show ?case by simp
qed

text \<open>
  Claim C3. For an iterator with remaining items \<open>xs\<close>, fewer than \<open>2 ^ 64\<close> so that
  their number fits \<^verbatim>\<open>size_t\<close>: \<^verbatim>\<open>count()\<close> on the clone returns their number, the
  array allocated has that many elements, and the walk of the original iterator with
  \<^verbatim>\<open>enumerate()\<close> writes every item into its slot, inside the allocation.
  \<^verbatim>\<open>from_iterator\<close> and \<^verbatim>\<open>collect\<close> return the array \<open>xs\<close>, and a fresh iterator
  over the array yields \<open>xs\<close> again, in the same order.
\<close>

theorem collect_round_trip:
  "produces nxt s xs \<and> length xs < 2 ^ 64 \<longrightarrow>
     Iterator_count nxt (Iterator_clone s) = Some (of_nat (length xs)) \<and>
     length (Array_new dflt (of_nat (length xs))) = length xs \<and>
     Array_from_iterator nxt dflt s = Some (Inr xs) \<and>
     Iterator_collect nxt dflt s = Some (Inr xs) \<and>
     produces ArrayIterator_next (Array_iter xs) xs"
proof (intro impI)
  assume a: "produces nxt s xs \<and> length xs < 2 ^ 64"
  then have p: "produces nxt s xs" and len: "length xs < 2 ^ 64" by simp_all
  have c: "Iterator_count nxt (Iterator_clone s) = Some (of_nat (length xs))"
    using Iterator_count_produces [OF p] by (simp add: Iterator_clone_def)
  have u: "unat (of_nat (length xs) :: size_t) = length xs"
    using len by (simp add: unat_of_nat)
  have n: "Array_new dflt (of_nat (length xs)) = replicate (length xs) dflt"
    by (simp only: Array_new_def u)
  have "from_iterator_loop nxt (Enumerate s (of_nat (length ([]::'b list))))
      ([] @ replicate (length xs) dflt) = Some (Inr ([] @ xs))"
    using len by (intro from_iterator_loop_fills [OF p]) simp_all
  then have f: "Array_from_iterator nxt dflt s = Some (Inr xs)"
    by (simp add: Array_from_iterator_def c n Iterator_enumerate_def)
  show "Iterator_count nxt (Iterator_clone s) = Some (of_nat (length xs)) \<and>
     length (Array_new dflt (of_nat (length xs))) = length xs \<and>
     Array_from_iterator nxt dflt s = Some (Inr xs) \<and>
     Iterator_collect nxt dflt s = Some (Inr xs) \<and>
     produces ArrayIterator_next (Array_iter xs) xs"
    using c n f Array_iter_produces [of xs] by (simp add: Iterator_collect_def)
qed

theorem collect_round_trip_witness:
  "produces ArrayIterator_next (ArrayIterator [10::int, 20, 30] 1) [20, 30] \<and>
   length [20::int, 30] < 2 ^ 64 \<and>
   Iterator_count ArrayIterator_next (Iterator_clone (ArrayIterator [10::int, 20, 30] 1)) = Some 2 \<and>
   Iterator_collect ArrayIterator_next 0 (ArrayIterator [10::int, 20, 30] 1) = Some (Inr [20, 30]) \<and>
   produces ArrayIterator_next (Array_iter [20::int, 30]) [20, 30]"
proof -
  have p: "produces ArrayIterator_next (ArrayIterator [10::int, 20, 30] 1) [20, 30]"
    using ArrayIterator_produces [of "[10::int, 20, 30]" 1] by simp
  have l: "length [20::int, 30] < 2 ^ 64" by simp
  note t = collect_round_trip
    [of ArrayIterator_next "ArrayIterator [10::int, 20, 30] 1" "[20, 30]" 0]
  have c: "Iterator_count ArrayIterator_next (Iterator_clone (ArrayIterator [10::int, 20, 30] 1)) =
      Some (of_nat (length [20::int, 30]))"
    using t p l by blast
  have c': "Iterator_count ArrayIterator_next (Iterator_clone (ArrayIterator [10::int, 20, 30] 1)) =
      Some 2"
    using c by simp
  have f: "Iterator_collect ArrayIterator_next 0 (ArrayIterator [10::int, 20, 30] 1) =
      Some (Inr [20, 30])"
    using t p l by blast
  have r: "produces ArrayIterator_next (Array_iter [20::int, 30]) [20, 30]"
    using t p l by blast
  show ?thesis using p l c' f r by blast
qed

section \<open>No resurrection\<close>

lemma single_pass_forever:
  "single_pass f \<Longrightarrow> fst (f s) = None \<Longrightarrow> fst (pulls f n (snd (f s))) = replicate n None"
proof (induction n arbitrary: s)
  case 0
  then show ?case by simp
next
  case (Suc n)
  from Suc.prems have e: "fst (f (snd (f s))) = None" by (simp add: single_pass_def)
  from Suc.IH [OF Suc.prems(1) e] show ?case using e by (simp add: split_beta)
qed

lemma single_pass_StepBy: "single_pass nxt \<Longrightarrow> single_pass (StepBy_next nxt)"
  unfolding single_pass_def
  apply (intro allI impI)
  subgoal for st by (cases st) (auto simp: split_beta split: option.splits if_splits)
  done

lemma single_pass_Map: "single_pass nxt \<Longrightarrow> single_pass (Map_next nxt)"
  unfolding single_pass_def
  apply (intro allI impI)
  subgoal for st by (cases st) (auto simp: split_beta split: option.splits if_splits)
  done

lemma single_pass_Skip: "single_pass nxt \<Longrightarrow> single_pass (Skip_next nxt)"
  unfolding single_pass_def
  apply (intro allI impI)
  subgoal for st by (cases st) (auto simp: split_beta split: option.splits if_splits)
  done

lemma single_pass_Enumerate: "single_pass nxt \<Longrightarrow> single_pass (Enumerate_next nxt)"
  unfolding single_pass_def
  apply (intro allI impI)
  subgoal for st by (cases st) (auto simp: split_beta split: option.splits if_splits)
  done

lemma single_pass_Take: "single_pass nxt \<Longrightarrow> single_pass (Take_next nxt)"
  unfolding single_pass_def
  apply (intro allI impI)
  subgoal for st by (cases st) (auto simp: split_beta split: option.splits if_splits)
  done

lemma single_pass_TakeWhile: "single_pass (TakeWhile_next nxt)"
  unfolding single_pass_def
  apply (intro allI impI)
  subgoal for st by (cases st) (auto simp: split_beta split: option.splits if_splits)
  done

lemma single_pass_Chain:
  "single_pass nxt1 \<Longrightarrow> single_pass nxt2 \<Longrightarrow> single_pass (Chain_next nxt1 nxt2)"
  unfolding single_pass_def
  apply (intro allI impI)
  subgoal for st by (cases st) (auto simp: split_beta split: option.splits if_splits)
  done

lemma single_pass_Zip:
  "single_pass nxt1 \<Longrightarrow> single_pass nxt2 \<Longrightarrow> single_pass (Zip_next nxt1 nxt2)"
  unfolding single_pass_def
  apply (intro allI impI)
  subgoal for st by (cases st) (auto simp: split_beta split: option.splits if_splits)
  done

lemma single_pass_Interleave:
  "single_pass nxt1 \<Longrightarrow> single_pass nxt2 \<Longrightarrow> single_pass (Interleave_next nxt1 nxt2)"
  unfolding single_pass_def
  apply (intro allI impI)
  subgoal for st by (cases st) (auto simp: split_beta split: option.splits if_splits)
  done

lemma single_pass_InterleaveShortest:
  "single_pass nxt1 \<Longrightarrow> single_pass nxt2 \<Longrightarrow>
   single_pass (InterleaveShortest_next nxt1 nxt2)"
  unfolding single_pass_def
  apply (intro allI impI)
  subgoal for st by (cases st) (auto simp: split_beta split: option.splits if_splits)
  done

lemma Filter_loop_exhausted:
  assumes "Filter_loop nxt p s = Some r"
  shows "fst r = None \<longrightarrow> (\<exists>s0. nxt s0 = (None, snd r))"
  using assms
  by (rule Filter_loop.raw_induct
        [rotated, where P = "\<lambda>nxt p s r. fst r = None \<longrightarrow> (\<exists>s0. nxt s0 = (None, snd r))"])
     (auto split: prod.splits option.splits if_splits)

lemma SkipWhile_loop_exhausted:
  assumes "SkipWhile_loop nxt p s = Some r"
  shows "fst r = None \<longrightarrow> (\<exists>s0. nxt s0 = (None, snd r))"
  using assms
  by (rule SkipWhile_loop.raw_induct
        [rotated, where P = "\<lambda>nxt p s r. fst r = None \<longrightarrow> (\<exists>s0. nxt s0 = (None, snd r))"])
     (auto split: prod.splits option.splits if_splits)

lemma UniqueBy_loop_exhausted:
  assumes "UniqueBy_loop nxt func seen s = Some r"
  shows "fst r = None \<longrightarrow> (\<exists>s0. nxt s0 = (None, snd r))"
  using assms
  by (rule UniqueBy_loop.raw_induct
        [rotated, where P = "\<lambda>nxt func seen s r. fst r = None \<longrightarrow> (\<exists>s0. nxt s0 = (None, snd r))"])
     (auto split: prod.splits option.splits if_splits)

lemma Unique_loop_exhausted:
  assumes "Unique_loop nxt seen s = Some r"
  shows "fst r = None \<longrightarrow> (\<exists>s0. nxt s0 = (None, snd r))"
  using assms
  by (rule Unique_loop.raw_induct
        [rotated, where P = "\<lambda>nxt seen s r. fst r = None \<longrightarrow> (\<exists>s0. nxt s0 = (None, snd r))"])
     (auto split: prod.splits option.splits if_splits)

lemma Unique_loop_on_exhausted:
  "fst (nxt s) = None \<Longrightarrow> Unique_loop nxt seen s = Some (None, snd (nxt s))"
  by (subst Unique_loop.simps) (simp add: split_beta)

lemma Filter_loop_on_exhausted:
  "fst (nxt s) = None \<Longrightarrow> Filter_loop nxt p s = Some (None, snd (nxt s))"
  by (subst Filter_loop.simps) (simp add: split_beta)

lemma SkipWhile_loop_on_exhausted:
  "fst (nxt s) = None \<Longrightarrow> SkipWhile_loop nxt p s = Some (None, snd (nxt s))"
  by (subst SkipWhile_loop.simps) (simp add: split_beta)

lemma UniqueBy_loop_on_exhausted:
  "fst (nxt s) = None \<Longrightarrow> UniqueBy_loop nxt func seen s = Some (None, snd (nxt s))"
  by (subst UniqueBy_loop.simps) (simp add: split_beta)

lemma after_exhaustion:
  "single_pass nxt \<Longrightarrow> nxt s0 = (None, s') \<Longrightarrow> fst (nxt s') = None"
  unfolding single_pass_def by (metis fst_conv snd_conv)

lemma single_pass_Filter:
  assumes sp: "single_pass nxt"
  shows "single_pass_loop (Filter_next nxt)"
  unfolding single_pass_loop_def
proof (intro allI impI)
  fix st st' :: "('a, 'b) Filter"
  assume a: "Filter_next nxt st = Some (None, st')"
  obtain inner p where st: "st = Filter inner p" by (cases st)
  from a st obtain inner' where l: "Filter_loop nxt p inner = Some (None, inner')"
    and st': "st' = Filter inner' p"
    by (auto split: option.splits)
  from Filter_loop_exhausted [OF l] obtain s0 where "nxt s0 = (None, inner')" by auto
  from after_exhaustion [OF sp this] have "fst (nxt inner') = None" .
  from Filter_loop_on_exhausted [of nxt inner' p, OF this]
  show "\<exists>s''. Filter_next nxt st' = Some (None, s'')" by (simp add: st')
qed

lemma single_pass_SkipWhile:
  assumes sp: "single_pass nxt"
  shows "single_pass_loop (SkipWhile_next nxt)"
  unfolding single_pass_loop_def
proof (intro allI impI)
  fix st st' :: "('a, 'b) SkipWhile"
  assume a: "SkipWhile_next nxt st = Some (None, st')"
  obtain inner p skipped where st: "st = SkipWhile inner p skipped" by (cases st)
  have "\<exists>inner'. st' = SkipWhile inner' p True \<and> fst (nxt inner') = None"
  proof (cases skipped)
    case True
    with a st have "fst (nxt inner) = None" and "st' = SkipWhile (snd (nxt inner)) p True"
      by (auto simp: split_beta)
    then show ?thesis using sp by (auto simp: single_pass_def)
  next
    case False
    with a st obtain inner' where l: "SkipWhile_loop nxt p inner = Some (None, inner')"
      and st': "st' = SkipWhile inner' p True"
      by (auto split: option.splits)
    from SkipWhile_loop_exhausted [OF l] obtain s0 where "nxt s0 = (None, inner')" by auto
    from after_exhaustion [OF sp this] show ?thesis using st' by simp
  qed
  then show "\<exists>s''. SkipWhile_next nxt st' = Some (None, s'')"
    by (auto simp: split_beta)
qed

lemma single_pass_Unique:
  assumes sp: "single_pass nxt"
  shows "single_pass_loop (Unique_next nxt)"
  unfolding single_pass_loop_def
proof (intro allI impI)
  fix st st' :: "('a, 'b) Unique"
  assume a: "Unique_next nxt st = Some (None, st')"
  obtain inner seen where st: "st = Unique inner seen" by (cases st)
  from a st obtain inner' where l: "Unique_loop nxt seen inner = Some (None, inner')"
    and st': "st' = Unique inner' seen"
    by (auto split: option.splits)
  from Unique_loop_exhausted [OF l] obtain s0 where "nxt s0 = (None, inner')" by auto
  from after_exhaustion [OF sp this] have "fst (nxt inner') = None" .
  from Unique_loop_on_exhausted [of nxt inner' seen, OF this]
  show "\<exists>s''. Unique_next nxt st' = Some (None, s'')" by (simp add: st')
qed

lemma single_pass_UniqueBy:
  assumes sp: "single_pass nxt"
  shows "single_pass_loop (UniqueBy_next nxt)"
  unfolding single_pass_loop_def
proof (intro allI impI)
  fix st st' :: "('a, 'b, 'k) UniqueBy"
  assume a: "UniqueBy_next nxt st = Some (None, st')"
  obtain inner seen func where st: "st = UniqueBy inner seen func" by (cases st)
  from a st obtain inner' where l: "UniqueBy_loop nxt func seen inner = Some (None, inner')"
    and st': "st' = UniqueBy inner' seen func"
    by (auto split: option.splits)
  from UniqueBy_loop_exhausted [OF l] obtain s0 where "nxt s0 = (None, inner')" by auto
  from after_exhaustion [OF sp this] have "fst (nxt inner') = None" .
  from UniqueBy_loop_on_exhausted [of nxt inner' func seen, OF this]
  show "\<exists>s''. UniqueBy_next nxt st' = Some (None, s'')" by (simp add: st')
qed

text \<open>
  Claim C5. Every adapter other than Cycle, over single-pass inner iterators, is
  single-pass: in every state of the adapter, a call of \<^verbatim>\<open>next\<close> that follows one that
  returned exhaustion returns exhaustion. For SkipWhile, Filter, Unique and UniqueBy,
  whose \<^verbatim>\<open>next\<close> holds an unbounded loop, the call that follows returns, and returns
  exhaustion. For a single-pass iterator every one of the \<open>n\<close> calls after a call that
  returned exhaustion returns exhaustion.
\<close>

theorem adapters_stay_exhausted:
  "(single_pass nxt \<longrightarrow>
      single_pass (StepBy_next nxt) \<and>
      single_pass (Map_next nxt) \<and>
      single_pass (Skip_next nxt) \<and>
      single_pass_loop (SkipWhile_next nxt) \<and>
      single_pass (Enumerate_next nxt) \<and>
      single_pass_loop (Filter_next nxt) \<and>
      single_pass (Take_next nxt) \<and>
      single_pass (TakeWhile_next nxt) \<and>
      single_pass_loop (Unique_next nxt) \<and>
      single_pass_loop (UniqueBy_next nxt)) \<and>
   (single_pass nxt1 \<and> single_pass nxt2 \<longrightarrow>
      single_pass (Chain_next nxt1 nxt2) \<and>
      single_pass (Interleave_next nxt1 nxt2) \<and>
      single_pass (InterleaveShortest_next nxt1 nxt2)) \<and>
   (single_pass nxt1 \<and> single_pass nxt3 \<longrightarrow> single_pass (Zip_next nxt1 nxt3)) \<and>
   (single_pass f \<and> fst (f s) = None \<longrightarrow>
      fst (pulls f n (snd (f s))) = replicate n None)"
proof (intro conjI impI)
  assume sp: "single_pass nxt"
  show "single_pass (StepBy_next nxt)" by (rule single_pass_StepBy [OF sp])
  show "single_pass (Map_next nxt)" by (rule single_pass_Map [OF sp])
  show "single_pass (Skip_next nxt)" by (rule single_pass_Skip [OF sp])
  show "single_pass_loop (SkipWhile_next nxt)" by (rule single_pass_SkipWhile [OF sp])
  show "single_pass (Enumerate_next nxt)" by (rule single_pass_Enumerate [OF sp])
  show "single_pass_loop (Filter_next nxt)" by (rule single_pass_Filter [OF sp])
  show "single_pass (Take_next nxt)" by (rule single_pass_Take [OF sp])
  show "single_pass (TakeWhile_next nxt)" by (rule single_pass_TakeWhile)
  show "single_pass_loop (Unique_next nxt)" by (rule single_pass_Unique [OF sp])
  show "single_pass_loop (UniqueBy_next nxt)" by (rule single_pass_UniqueBy [OF sp])
next
  assume "single_pass nxt1 \<and> single_pass nxt2"
  then have s1: "single_pass nxt1" and s2: "single_pass nxt2" by simp_all
  show "single_pass (Chain_next nxt1 nxt2)" by (rule single_pass_Chain [OF s1 s2])
  show "single_pass (Interleave_next nxt1 nxt2)" by (rule single_pass_Interleave [OF s1 s2])
  show "single_pass (InterleaveShortest_next nxt1 nxt2)"
    by (rule single_pass_InterleaveShortest [OF s1 s2])
next
  assume "single_pass nxt1 \<and> single_pass nxt3"
  then show "single_pass (Zip_next nxt1 nxt3)" by (simp add: single_pass_Zip)
next
  assume "single_pass f \<and> fst (f s) = None"
  then show "fst (pulls f n (snd (f s))) = replicate n None"
    by (simp add: single_pass_forever)
qed

theorem adapters_stay_exhausted_witness:
  "single_pass (ArrayIterator_next :: (nat ArrayIterator, nat) pull) \<and>
   single_pass (TakeWhile_next (ArrayIterator_next :: (nat ArrayIterator, nat) pull)) \<and>
   single_pass (Interleave_next (ArrayIterator_next :: (nat ArrayIterator, nat) pull)
      (ArrayIterator_next :: (nat ArrayIterator, nat) pull)) \<and>
   single_pass_loop (Filter_next (ArrayIterator_next :: (nat ArrayIterator, nat) pull)) \<and>
   fst (TakeWhile_next ArrayIterator_next
      (TakeWhile (ArrayIterator [2::nat, 4, 7, 8] 2) (\<lambda>v. v mod 2 = 0) False)) = None \<and>
   fst (pulls (TakeWhile_next ArrayIterator_next) 2
      (snd (TakeWhile_next ArrayIterator_next
        (TakeWhile (ArrayIterator [2::nat, 4, 7, 8] 2) (\<lambda>v. v mod 2 = 0) False)))) =
      [None, None] \<and>
   fst (Interleave_next ArrayIterator_next ArrayIterator_next
      (Interleave (ArrayIterator [1::nat] 1) (ArrayIterator [5::nat] 1) True)) = None \<and>
   fst (pulls (Interleave_next ArrayIterator_next ArrayIterator_next) 2
      (snd (Interleave_next ArrayIterator_next ArrayIterator_next
        (Interleave (ArrayIterator [1::nat] 1) (ArrayIterator [5::nat] 1) True)))) =
      [None, None]"
proof -
  let ?nxt = "ArrayIterator_next :: (nat ArrayIterator, nat) pull"
  let ?tw = "TakeWhile (ArrayIterator [2::nat, 4, 7, 8] 2) (\<lambda>v. v mod 2 = 0) False"
  let ?il = "Interleave (ArrayIterator [1::nat] 1) (ArrayIterator [5::nat] 1) True"
  have sp: "single_pass ?nxt" by (rule ArrayIterator_single_pass)
  note t0 = adapters_stay_exhausted
    [where nxt = ?nxt and ?nxt1.0 = ?nxt and ?nxt2.0 = ?nxt and ?nxt3.0 = ?nxt
       and f = "TakeWhile_next ?nxt" and s = ?tw and n = 2]
  have a1: "single_pass (TakeWhile_next ?nxt)" using t0 sp by blast
  have a2: "single_pass (Interleave_next ?nxt ?nxt)" using t0 sp by blast
  have a3: "single_pass_loop (Filter_next ?nxt)" using t0 sp by blast
  have e1: "fst (TakeWhile_next ?nxt ?tw) = None" by simp
  have e2: "fst (Interleave_next ?nxt ?nxt ?il) = None" by simp
  have r1: "fst (pulls (TakeWhile_next ?nxt) 2 (snd (TakeWhile_next ?nxt ?tw))) =
      replicate 2 None"
    using t0 a1 e1 by blast
  note t1 = adapters_stay_exhausted
    [where nxt = ?nxt and ?nxt1.0 = ?nxt and ?nxt2.0 = ?nxt and ?nxt3.0 = ?nxt
       and f = "Interleave_next ?nxt ?nxt" and s = ?il and n = 2]
  have r2: "fst (pulls (Interleave_next ?nxt ?nxt) 2 (snd (Interleave_next ?nxt ?nxt ?il))) =
      replicate 2 None"
    using t1 a2 e2 by blast
  have rep: "replicate 2 (None :: nat option) = [None, None]"
    by (simp add: numeral_2_eq_2)
  show ?thesis using sp a1 a2 a3 e1 e2 r1 r2 unfolding rep by blast
qed

end
